theory Spec2Isabelle
  imports Main "HOL-Library.Sublist" "HOL-Library.Multiset"
begin

section \<open>Python values, strings and dictionaries\<close>

text \<open>
  The suppression engine of \<^verbatim>\<open>src/crashlens/cli_new.py\<close> works on detection records,
  which are Python dictionaries from field names to arbitrary values. The values the
  model knows are \<^verbatim>\<open>None\<close>, booleans, integers, strings and lists (the one unhashable
  kind); floating point numbers are left out. Strings are ASCII.
\<close>

datatype pyval = PNone | PBool bool | PInt int | PStr string | PList "pyval list"

datatype py_error = TypeError | AttributeError

type_synonym pydict = "string \<rightharpoonup> pyval"

text \<open>Truth value testing, as in \<^verbatim>\<open>if not trace_id\<close>.\<close>

primrec truthy :: "pyval \<Rightarrow> bool" where
  "truthy PNone = False"
| "truthy (PBool b) = b"
| "truthy (PInt i) = (i \<noteq> 0)"
| "truthy (PStr s) = (s \<noteq> [])"
| "truthy (PList xs) = (xs \<noteq> [])"

text \<open>Lists cannot be dictionary keys: hashing one raises \<^verbatim>\<open>TypeError\<close>.\<close>

primrec hashable :: "pyval \<Rightarrow> bool" where
  "hashable PNone = True"
| "hashable (PBool b) = True"
| "hashable (PInt i) = True"
| "hashable (PStr s) = True"
| "hashable (PList xs) = False"

text \<open>
  Python's \<^verbatim>\<open>==\<close> identifies \<^verbatim>\<open>True\<close> with \<^verbatim>\<open>1\<close> and \<^verbatim>\<open>False\<close> with \<^verbatim>\<open>0\<close>, also
  as dictionary keys. \<open>py_key\<close> is the representative of a value under \<^verbatim>\<open>==\<close>; a
  dictionary keyed by arbitrary values is a map on representatives.
\<close>

primrec py_key :: "pyval \<Rightarrow> pyval" where
  "py_key PNone = PNone"
| "py_key (PBool b) = PInt (if b then 1 else 0)"
| "py_key (PInt i) = PInt i"
| "py_key (PStr s) = PStr s"
| "py_key (PList xs) = PList (map py_key xs)"

definition py_eq :: "pyval \<Rightarrow> pyval \<Rightarrow> bool" where
  "py_eq a b = (py_key a = py_key b)"

text \<open>\<^verbatim>\<open>d.get(k)\<close> and \<^verbatim>\<open>d.get(k, default)\<close>.\<close>

definition dict_get :: "pydict \<Rightarrow> string \<Rightarrow> pyval" where
  "dict_get d k = (case d k of None \<Rightarrow> PNone | Some v \<Rightarrow> v)"

definition dict_get_default :: "pydict \<Rightarrow> string \<Rightarrow> pyval \<Rightarrow> pyval" where
  "dict_get_default d k dflt = (case d k of None \<Rightarrow> dflt | Some v \<Rightarrow> v)"

text \<open>
  \<^verbatim>\<open>str.lower()\<close> on ASCII strings: the letters A to Z are mapped, every other
  character is kept.
\<close>

definition lower_char :: "char \<Rightarrow> char" where
  "lower_char c =
     (case map_of (zip ''ABCDEFGHIJKLMNOPQRSTUVWXYZ'' ''abcdefghijklmnopqrstuvwxyz'') c of
        None \<Rightarrow> c | Some l \<Rightarrow> l)"

definition str_lower :: "string \<Rightarrow> string" where
  "str_lower s = map lower_char s"

text \<open>
  \<^verbatim>\<open>s.replace(old, new)\<close>: the occurrences of \<open>old\<close> are replaced from the left and
  do not overlap. With an empty \<open>old\<close>, Python puts \<open>new\<close> before every character
  and at the end.
\<close>

fun str_replace :: "string \<Rightarrow> string \<Rightarrow> string \<Rightarrow> string" where
  "str_replace old new [] = (if old = [] then new else [])"
| "str_replace old new (c # cs) =
     (if old = [] then new @ c # str_replace old new cs
      else if prefix old (c # cs) then new @ str_replace old new (drop (length old - 1) cs)
      else c # str_replace old new cs)"

text \<open>\<^verbatim>\<open>needle in hay\<close> on strings: \<open>needle\<close> occurs in \<open>hay\<close> as a substring.\<close>

fun str_contains :: "string \<Rightarrow> string \<Rightarrow> bool" where
  "str_contains needle [] = (needle = [])"
| "str_contains needle (c # cs) = (prefix needle (c # cs) \<or> str_contains needle cs)"

section \<open>Detector priorities\<close>

definition DETECTOR_PRIORITY :: "string \<rightharpoonup> int" where
  "DETECTOR_PRIORITY =
     [''RetryLoopDetector'' \<mapsto> 1,
      ''FallbackStormDetector'' \<mapsto> 2,
      ''FallbackFailureDetector'' \<mapsto> 3,
      ''OverkillModelDetector'' \<mapsto> 4]"

text \<open>\<^verbatim>\<open>DETECTOR_PRIORITY.get(name, 999)\<close>.\<close>

definition priority_of :: "string \<Rightarrow> int" where
  "priority_of name = (case DETECTOR_PRIORITY name of None \<Rightarrow> 999 | Some p \<Rightarrow> p)"

section \<open>The engine and the object store\<close>

text \<open>
  Detections are mutable objects that the engine reads through references, mutates in
  place (\<^verbatim>\<open>detection['suppressed_by'] = None\<close>) and copies (\<^verbatim>\<open>detection.copy()\<close>), and
  the lists of the engine hold references. The store maps a reference to the
  dictionary it denotes; \<open>next_ref\<close> is the next unused reference, the one a copy gets.
  The engine's state is the store together with the attributes of the class
  \<^verbatim>\<open>SuppressionEngine\<close>. The table \<open>trace_ownership\<close> is keyed by the representative
  \<open>py_key\<close> of the trace identifier. The configuration is a dictionary of dictionaries,
  as \<^verbatim>\<open>_is_detector_suppressed\<close> reads it. The argument \<^verbatim>\<open>detections\<close> of
  \<^verbatim>\<open>process_detections\<close> is a list of references; it is not one of the engine's own list
  objects.
\<close>

type_synonym ref = nat

record heap =
  objs :: "ref \<Rightarrow> pydict"
  next_ref :: ref

record SuppressionEngine = heap +
  suppression_config :: "string \<rightharpoonup> pydict"
  include_suppressed :: bool
  trace_ownership :: "pyval \<rightharpoonup> string"
  suppressed_detections :: "ref list"
  active_detections :: "ref list"

text \<open>\<^verbatim>\<open>__init__\<close>: \<^verbatim>\<open>suppression_config or {}\<close>, empty table and lists.\<close>

definition init :: "heap \<Rightarrow> (string \<rightharpoonup> pydict) option \<Rightarrow> bool \<Rightarrow> SuppressionEngine" where
  "init h cfg incl =
     \<lparr>objs = objs h, next_ref = next_ref h,
      suppression_config = (case cfg of None \<Rightarrow> Map.empty | Some c \<Rightarrow> c),
      include_suppressed = incl,
      trace_ownership = Map.empty,
      suppressed_detections = [],
      active_detections = []\<rparr>"

text \<open>
  \<^verbatim>\<open>_is_detector_suppressed\<close>. The configuration entry is looked up under the detector's
  name in lower case without the substring \<^verbatim>\<open>detector\<close>. Python's \<^verbatim>\<open>and\<close> evaluates its
  right operand, which hashes the trace identifier, only when the left one is true.
\<close>

definition config_key :: "string \<Rightarrow> string" where
  "config_key detector_name = str_replace ''detector'' '''' (str_lower detector_name)"

definition is_detector_suppressed ::
  "SuppressionEngine \<Rightarrow> string \<Rightarrow> pyval \<Rightarrow> py_error + bool" where
  "is_detector_suppressed s detector_name trace_id =
     (let detector_config =
            (case suppression_config s (config_key detector_name) of
               None \<Rightarrow> Map.empty | Some c \<Rightarrow> c)
      in if \<not> truthy (dict_get_default detector_config ''suppress_if_retry_loop'' (PBool False))
         then Inr False
         else if \<not> hashable trace_id then Inl TypeError
         else Inr (trace_ownership s (py_key trace_id) = Some ''RetryLoopDetector''))"

text \<open>
  \<^verbatim>\<open>_add_suppressed_detection\<close>: a copy of the detection, with the three metadata
  fields set, is appended to the suppressed list. The copy is a new object.
\<close>

definition suppressed_copy :: "pydict \<Rightarrow> string \<Rightarrow> string \<Rightarrow> pydict" where
  "suppressed_copy detection detector_name reason =
     detection(''suppressed_by'' \<mapsto> PStr detector_name,
               ''suppression_reason'' \<mapsto> PStr reason,
               ''detector'' \<mapsto> PStr detector_name)"

definition add_suppressed_detection ::
  "SuppressionEngine \<Rightarrow> ref \<Rightarrow> string \<Rightarrow> string \<Rightarrow> SuppressionEngine" where
  "add_suppressed_detection s detection detector_name reason =
     (let suppressed = suppressed_copy (objs s detection) detector_name reason
      in s\<lparr>objs := (objs s)(next_ref s := suppressed),
            next_ref := Suc (next_ref s),
            suppressed_detections := suppressed_detections s @ [next_ref s]\<rparr>)"

text \<open>
  \<^verbatim>\<open>_transfer_ownership\<close>. The first loop splits the active list; the filter compares
  the trace identifiers and, only when they are equal, normalises the \<^verbatim>\<open>type\<close> field,
  which raises \<^verbatim>\<open>AttributeError\<close> when the field holds anything but a string.
\<close>

definition normalize_type :: "string \<Rightarrow> string" where
  "normalize_type t = str_lower (str_replace '' '' '''' (str_replace ''_'' '''' t))"

definition matches_old_owner ::
  "pydict \<Rightarrow> pyval \<Rightarrow> string \<Rightarrow> py_error + bool" where
  "matches_old_owner d trace_id old_owner =
     (if py_eq (dict_get d ''trace_id'') trace_id
      then (case dict_get_default d ''type'' (PStr '''') of
              PStr t \<Rightarrow> Inr (str_contains (normalize_type t) (str_lower old_owner))
            | _ \<Rightarrow> Inl AttributeError)
      else Inr False)"

fun transfer_scan ::
  "(ref \<Rightarrow> pydict) \<Rightarrow> pyval \<Rightarrow> string \<Rightarrow> ref list \<Rightarrow> ref list \<times> ref list
     \<Rightarrow> py_error + (ref list \<times> ref list)" where
  "transfer_scan h trace_id old_owner [] (to_suppress, remaining_active) =
     Inr (to_suppress, remaining_active)"
| "transfer_scan h trace_id old_owner (detection # rest) (to_suppress, remaining_active) =
     (case matches_old_owner (h detection) trace_id old_owner of
        Inl e \<Rightarrow> Inl e
      | Inr True \<Rightarrow>
          transfer_scan h trace_id old_owner rest (to_suppress @ [detection], remaining_active)
      | Inr False \<Rightarrow>
          transfer_scan h trace_id old_owner rest (to_suppress, remaining_active @ [detection]))"

fun suppress_all ::
  "SuppressionEngine \<Rightarrow> ref list \<Rightarrow> string \<Rightarrow> string \<Rightarrow> SuppressionEngine" where
  "suppress_all s [] old_owner reason = s"
| "suppress_all s (detection # rest) old_owner reason =
     suppress_all (add_suppressed_detection s detection old_owner reason) rest old_owner reason"

definition transfer_ownership ::
  "SuppressionEngine \<Rightarrow> pyval \<Rightarrow> string \<Rightarrow> string \<Rightarrow> py_error + SuppressionEngine" where
  "transfer_ownership s trace_id old_owner new_owner =
     (case transfer_scan (objs s) trace_id old_owner (active_detections s) ([], []) of
        Inl e \<Rightarrow> Inl e
      | Inr (to_suppress, remaining_active) \<Rightarrow>
          Inr ((suppress_all s to_suppress old_owner (''superseded_by:'' @ new_owner))
                 \<lparr>active_detections := remaining_active\<rparr>))"

text \<open>
  The body of the loop of \<^verbatim>\<open>process_detections\<close>, for one detection. It returns the
  new state and either the exception raised or whether the detection is appended to the
  local list \<^verbatim>\<open>active\<close>.
\<close>

definition claim_ownership :: "SuppressionEngine \<Rightarrow> string \<Rightarrow> pyval \<Rightarrow> ref \<Rightarrow> SuppressionEngine" where
  "claim_ownership s detector_name trace_id detection =
     s\<lparr>trace_ownership := (trace_ownership s)(py_key trace_id \<mapsto> detector_name),
       objs := (objs s)(detection := (objs s detection)(''suppressed_by'' \<mapsto> PNone))\<rparr>"

definition process_detection ::
  "SuppressionEngine \<Rightarrow> string \<Rightarrow> ref \<Rightarrow> SuppressionEngine \<times> (py_error + bool)" where
  "process_detection s detector_name detection =
     (let trace_id = dict_get (objs s detection) ''trace_id'' in
      if \<not> truthy trace_id then (s, Inr True)
      else case is_detector_suppressed s detector_name trace_id of
        Inl e \<Rightarrow> (s, Inl e)
      | Inr True \<Rightarrow>
          (add_suppressed_detection s detection detector_name ''disabled_by_config'', Inr False)
      | Inr False \<Rightarrow>
          if \<not> hashable trace_id then (s, Inl TypeError)
          else case trace_ownership s (py_key trace_id) of
            None \<Rightarrow> (claim_ownership s detector_name trace_id detection, Inr True)
          | Some current_owner \<Rightarrow>
              (let current_priority = priority_of detector_name;
                   owner_priority = priority_of current_owner
               in if current_priority > owner_priority
                  then (add_suppressed_detection s detection detector_name
                          (''higher_priority_detector:'' @ current_owner), Inr False)
                  else if current_priority < owner_priority
                  then (case transfer_ownership s trace_id current_owner detector_name of
                          Inl e \<Rightarrow> (s, Inl e)
                        | Inr s' \<Rightarrow> (claim_ownership s' detector_name trace_id detection, Inr True))
                  else (claim_ownership s detector_name trace_id detection, Inr True)))"

fun process_loop ::
  "SuppressionEngine \<Rightarrow> string \<Rightarrow> ref list \<Rightarrow> ref list
     \<Rightarrow> SuppressionEngine \<times> (py_error + ref list)" where
  "process_loop s detector_name [] active = (s, Inr active)"
| "process_loop s detector_name (detection # rest) active =
     (case process_detection s detector_name detection of
        (s', Inl e) \<Rightarrow> (s', Inl e)
      | (s', Inr True) \<Rightarrow> process_loop s' detector_name rest (active @ [detection])
      | (s', Inr False) \<Rightarrow> process_loop s' detector_name rest active)"

text \<open>
  \<^verbatim>\<open>process_detections\<close>: the loop, then the local list is appended to the engine's
  active list and returned. When the loop raises, the state it has reached stays and the
  local list is lost.
\<close>

definition process_detections ::
  "SuppressionEngine \<Rightarrow> string \<Rightarrow> ref list \<Rightarrow> SuppressionEngine \<times> (py_error + ref list)" where
  "process_detections s detector_name detections =
     (case process_loop s detector_name detections [] of
        (s', Inl e) \<Rightarrow> (s', Inl e)
      | (s', Inr active) \<Rightarrow>
          (s'\<lparr>active_detections := active_detections s' @ active\<rparr>, Inr active))"

text \<open>
  A sequence of calls, each a detector name with its detections. As the caller
  \<^verbatim>\<open>scan\<close> does, the sequence goes on after a call that raised. \<open>completes\<close> says that
  no call of the sequence raises.
\<close>

fun process_all :: "SuppressionEngine \<Rightarrow> (string \<times> ref list) list \<Rightarrow> SuppressionEngine" where
  "process_all s [] = s"
| "process_all s ((detector_name, detections) # calls) =
     process_all (fst (process_detections s detector_name detections)) calls"

fun completes :: "SuppressionEngine \<Rightarrow> (string \<times> ref list) list \<Rightarrow> bool" where
  "completes s [] = True"
| "completes s ((detector_name, detections) # calls) =
     (case process_detections s detector_name detections of
        (s', Inl e) \<Rightarrow> False
      | (s', Inr active) \<Rightarrow> completes s' calls)"

section \<open>The totals of the report\<close>





section \<open>The summary and sequences of operations\<close>

text \<open>
  \<^verbatim>\<open>get_suppression_summary\<close> assigns to no attribute of the engine: it returns the
  state as it is, and the summary or the exception. Building the set of trace
  identifiers and the dictionary of reasons hashes the values, which raises
  \<^verbatim>\<open>TypeError\<close> on a list. \<open>run_calls\<close> runs a sequence of the engine's two public
  operations; \<open>submitted\<close> is what the sequence gives \<^verbatim>\<open>process_detections\<close> as input.
\<close>

record summary =
  total_traces_analyzed :: nat
  active_issues :: nat
  suppressed_issues :: nat
  suppression_breakdown :: "pyval \<rightharpoonup> nat"
  summary_trace_ownership :: "pyval \<rightharpoonup> string"

fun trace_id_set :: "(ref \<Rightarrow> pydict) \<Rightarrow> ref list \<Rightarrow> pyval set \<Rightarrow> py_error + pyval set" where
  "trace_id_set h [] seen = Inr seen"
| "trace_id_set h (d # ds) seen =
     (if truthy (dict_get (h d) ''trace_id'')
      then (if hashable (dict_get (h d) ''trace_id'')
            then trace_id_set h ds (insert (py_key (dict_get (h d) ''trace_id'')) seen)
            else Inl TypeError)
      else trace_id_set h ds seen)"

fun breakdown_loop ::
  "(ref \<Rightarrow> pydict) \<Rightarrow> ref list \<Rightarrow> (pyval \<rightharpoonup> nat) \<Rightarrow> py_error + (pyval \<rightharpoonup> nat)" where
  "breakdown_loop h [] breakdown = Inr breakdown"
| "breakdown_loop h (detection # rest) breakdown =
     (let reason = dict_get_default (h detection) ''suppression_reason'' (PStr ''unknown'')
      in if hashable reason
         then breakdown_loop h rest
                (breakdown(py_key reason \<mapsto>
                   (case breakdown (py_key reason) of None \<Rightarrow> 0 | Some c \<Rightarrow> c) + 1))
         else Inl TypeError)"

definition get_suppression_summary ::
  "SuppressionEngine \<Rightarrow> SuppressionEngine \<times> (py_error + summary)" where
  "get_suppression_summary s =
     (s,
      case trace_id_set (objs s) (active_detections s @ suppressed_detections s) {} of
        Inl e \<Rightarrow> Inl e
      | Inr traces \<Rightarrow>
          (case breakdown_loop (objs s) (suppressed_detections s) Map.empty of
             Inl e \<Rightarrow> Inl e
           | Inr breakdown \<Rightarrow>
               Inr \<lparr>total_traces_analyzed = card traces,
                    active_issues = length (active_detections s),
                    suppressed_issues = length (suppressed_detections s),
                    suppression_breakdown = breakdown,
                    summary_trace_ownership = trace_ownership s\<rparr>))"

datatype engine_call = ProcessDetections string "ref list" | GetSuppressionSummary

fun run_calls :: "SuppressionEngine \<Rightarrow> engine_call list \<Rightarrow> SuppressionEngine" where
  "run_calls s [] = s"
| "run_calls s (ProcessDetections detector_name detections # calls) =
     run_calls (fst (process_detections s detector_name detections)) calls"
| "run_calls s (GetSuppressionSummary # calls) =
     run_calls (fst (get_suppression_summary s)) calls"

fun submitted :: "engine_call list \<Rightarrow> ref list" where
  "submitted [] = []"
| "submitted (ProcessDetections detector_name detections # calls) = detections @ submitted calls"
| "submitted (GetSuppressionSummary # calls) = submitted calls"

section \<open>Predicates for the statements\<close>

text \<open>
  The filter of the first loop of \<^verbatim>\<open>_transfer_ownership\<close> as a predicate on references:
  the detection is moved to the suppressed list.
\<close>

definition is_match :: "(ref \<Rightarrow> pydict) \<Rightarrow> pyval \<Rightarrow> string \<Rightarrow> ref \<Rightarrow> bool" where
  "is_match h t old r = (matches_old_owner (h r) t old = Inr True)"

text \<open>
  What no operation of the engine changes: the configuration, the objects that exist
  (but for their field \<^verbatim>\<open>suppressed_by\<close>), the entries of the suppressed list, and the
  table at a key that is not a true value.
\<close>

definition frame :: "SuppressionEngine \<Rightarrow> SuppressionEngine \<Rightarrow> bool" where
  "frame s s' \<longleftrightarrow>
     suppression_config s' = suppression_config s \<and>
     include_suppressed s' = include_suppressed s \<and>
     next_ref s \<le> next_ref s' \<and>
     (\<forall>x<next_ref s. \<forall>k. k \<noteq> ''suppressed_by'' \<longrightarrow> objs s' x k = objs s x k) \<and>
     suppressed_detections s' = suppressed_detections s @ [next_ref s ..< next_ref s'] \<and>
     (\<forall>k. \<not> truthy k \<longrightarrow> trace_ownership s' k = trace_ownership s k)"





text \<open>
  The record of a detection without the three metadata fields the engine writes, and the
  multiset of these records for a list of references. \<open>allocated\<close> says that the
  engine's lists hold references of existing objects only.
\<close>

definition core :: "pydict \<Rightarrow> pydict" where
  "core d = d |` (- {''suppressed_by'', ''suppression_reason'', ''detector''})"

definition contents :: "SuppressionEngine \<Rightarrow> ref list \<Rightarrow> pydict multiset" where
  "contents s xs = image_mset (\<lambda>r. core (objs s r)) (mset xs)"

definition allocated :: "SuppressionEngine \<Rightarrow> bool" where
  "allocated s \<longleftrightarrow>
     (\<forall>r\<in>set (active_detections s) \<union> set (suppressed_detections s). r < next_ref s)"

text \<open>
  \<open>type_matches\<close>: the normalised \<^verbatim>\<open>type\<close> of the detection occurs in the detector's
  name in lower case, which is what the filter of \<^verbatim>\<open>_transfer_ownership\<close> tests.
  \<open>own_inv\<close>: the listed detections exist, match their producer, and the table gives the
  producer as owner of their trace.
\<close>

definition type_matches :: "pydict \<Rightarrow> string \<Rightarrow> bool" where
  "type_matches d detector_name =
     (case dict_get_default d ''type'' (PStr []) of
        PStr t \<Rightarrow> str_contains (normalize_type t) (str_lower detector_name)
      | _ \<Rightarrow> False)"

definition own_inv :: "(ref \<Rightarrow> string) \<Rightarrow> SuppressionEngine \<Rightarrow> ref list \<Rightarrow> bool" where
  "own_inv producer s xs \<longleftrightarrow>
     (\<forall>r\<in>set xs. r < next_ref s \<and> type_matches (objs s r) (producer r) \<and>
        (truthy (dict_get (objs s r) ''trace_id'') \<longrightarrow>
           trace_ownership s (py_key (dict_get (objs s r) ''trace_id'')) = Some (producer r)))"

section \<open>Example objects\<close>

text \<open>
  A store with thirteen detections and two engines on it, one without configuration and
  one whose configuration suppresses the fallback storm detector on traces owned by the
  retry loop detector.
\<close>

definition ex_objs :: "ref \<Rightarrow> pydict" where
  "ex_objs = (\<lambda>_. Map.empty)
     (0 := [''trace_id'' \<mapsto> PStr ''t1'', ''type'' \<mapsto> PStr ''retry_loop''],
      1 := [''trace_id'' \<mapsto> PStr ''t1'', ''type'' \<mapsto> PStr ''fallback_storm''],
      2 := [''trace_id'' \<mapsto> PStr ''t2'', ''type'' \<mapsto> PStr ''fallback_failure'',
            ''waste_tokens'' \<mapsto> PInt 5],
      3 := [''trace_id'' \<mapsto> PStr ''t2'', ''type'' \<mapsto> PStr ''retry_loop''],
      4 := [''type'' \<mapsto> PStr ''overkill_model''],
      5 := [''trace_id'' \<mapsto> PStr [], ''type'' \<mapsto> PStr ''overkill_model''],
      6 := [''trace_id'' \<mapsto> PStr ''t3'', ''type'' \<mapsto> PStr ''expensive_call''],
      7 := [''trace_id'' \<mapsto> PStr ''t3'', ''type'' \<mapsto> PStr ''retry_loop''],
      8 := [''trace_id'' \<mapsto> PStr ''t4'', ''type'' \<mapsto> PInt 5],
      9 := [''trace_id'' \<mapsto> PStr ''t4'', ''type'' \<mapsto> PStr ''retry_loop''],
      10 := [''trace_id'' \<mapsto> PList [PInt 1], ''type'' \<mapsto> PStr ''retry_loop''],
      11 := [''trace_id'' \<mapsto> PStr ''t5''],
      12 := [''trace_id'' \<mapsto> PStr ''t5'', ''type'' \<mapsto> PStr ''retry_loop''])"

definition ex_heap :: heap where
  "ex_heap = \<lparr>objs = ex_objs, next_ref = 13\<rparr>"


definition ex_engine :: SuppressionEngine where
  "ex_engine = init ex_heap None False"




definition ex_failure :: SuppressionEngine where
  "ex_failure = process_all ex_engine [(''FallbackFailureDetector'', [2])]"

definition ex_transferred :: SuppressionEngine where
  "ex_transferred = process_all ex_engine
     [(''FallbackFailureDetector'', [2]), (''RetryLoopDetector'', [3])]"

definition ex_untyped :: SuppressionEngine where
  "ex_untyped = process_all ex_engine [(''FallbackStormDetector'', [11])]"

definition ex_mismatch :: SuppressionEngine where
  "ex_mismatch = process_all ex_engine
     [(''FallbackFailureDetector'', [6]), (''RetryLoopDetector'', [7])]"

definition ex_downgraded :: SuppressionEngine where
  "ex_downgraded = process_all ex_engine
     [(''RetryLoopDetector'', [0]), (''FallbackStormDetector'', [1])]"

definition ex_coowned :: SuppressionEngine where
  "ex_coowned = process_all ex_engine
     [(''CustomDetectorA'', [0]), (''CustomDetectorB'', [1])]"

definition ex_calls :: "(string \<times> ref list) list" where
  "ex_calls = [(''FallbackFailureDetector'', [2]), (''RetryLoopDetector'', [3]),
               (''FallbackStormDetector'', [1]), (''RetryLoopDetector'', [0])]"

definition ex_producer :: "ref \<Rightarrow> string" where
  "ex_producer r = (if r = 2 then ''FallbackFailureDetector''
                    else if r = 1 then ''FallbackStormDetector'' else ''RetryLoopDetector'')"

definition ex_final :: SuppressionEngine where
  "ex_final = process_all (init ex_heap None False) ex_calls"

definition ex_resubmitted :: SuppressionEngine where
  "ex_resubmitted = run_calls ex_transferred [ProcessDetections ''RetryLoopDetector'' [13]]"

definition ex_objs2 :: "ref \<Rightarrow> pydict" where
  "ex_objs2 = (\<lambda>_. Map.empty)
     (0 := [''trace_id'' \<mapsto> PStr ''t5''],
      1 := [''trace_id'' \<mapsto> PStr ''t5'', ''type'' \<mapsto> PStr ''custom''],
      2 := [''trace_id'' \<mapsto> PStr ''t5'', ''type'' \<mapsto> PStr ''retry_loop''])"

definition ex_heap2 :: heap where
  "ex_heap2 = \<lparr>objs = ex_objs2, next_ref = 3\<rparr>"

definition ex_coowned2 :: SuppressionEngine where
  "ex_coowned2 = process_all (init ex_heap2 None False)
     [(''CustomDetectorA'', [0]), (''CustomDetectorB'', [1])]"

section \<open>Basic facts about the operations\<close>

lemma add_suppressed_detection_simps [simp]:
  "suppressed_detections (add_suppressed_detection s d n r) = suppressed_detections s @ [next_ref s]"
  "active_detections (add_suppressed_detection s d n r) = active_detections s"
  "trace_ownership (add_suppressed_detection s d n r) = trace_ownership s"
  "suppression_config (add_suppressed_detection s d n r) = suppression_config s"
  "include_suppressed (add_suppressed_detection s d n r) = include_suppressed s"
  "next_ref (add_suppressed_detection s d n r) = Suc (next_ref s)"
  "objs (add_suppressed_detection s d n r) =
     (objs s)(next_ref s := suppressed_copy (objs s d) n r)"
  by (simp_all add: add_suppressed_detection_def)

lemma claim_ownership_simps [simp]:
  "suppressed_detections (claim_ownership s n t d) = suppressed_detections s"
  "active_detections (claim_ownership s n t d) = active_detections s"
  "trace_ownership (claim_ownership s n t d) = (trace_ownership s)(py_key t \<mapsto> n)"
  "suppression_config (claim_ownership s n t d) = suppression_config s"
  "include_suppressed (claim_ownership s n t d) = include_suppressed s"
  "next_ref (claim_ownership s n t d) = next_ref s"
  "objs (claim_ownership s n t d) = (objs s)(d := (objs s d)(''suppressed_by'' \<mapsto> PNone))"
  by (simp_all add: claim_ownership_def)

lemma transfer_scan_Inr:
  "transfer_scan h t old ds (ts, ra) = Inr (ts', ra') \<Longrightarrow>
     ts' = ts @ filter (is_match h t old) ds \<and>
     ra' = ra @ filter (\<lambda>r. \<not> is_match h t old r) ds"
proof (induction ds arbitrary: ts ra)
  case Nil
  then show ?case by simp
next
  case (Cons d ds)
  show ?case
  proof (cases "matches_old_owner (h d) t old")
    case (Inl e)
    with Cons.prems show ?thesis by simp
  next
    case (Inr b)
    with Cons.prems Cons.IH [of "ts @ [d]" ra] Cons.IH [of ts "ra @ [d]"]
    show ?thesis by (cases b) (simp_all add: is_match_def)
  qed
qed

lemma transfer_scan_no_raise:
  "(\<forall>r\<in>set ds. \<exists>b. matches_old_owner (h r) t old = Inr b) \<Longrightarrow>
     \<exists>res. transfer_scan h t old ds acc = Inr res"
proof (induction ds arbitrary: acc)
  case Nil
  then show ?case by (cases acc) simp
next
  case (Cons d ds)
  then obtain b where b: "matches_old_owner (h d) t old = Inr b" by auto
  obtain ts ra where acc: "acc = (ts, ra)" by (cases acc)
  from Cons.prems have rest: "\<forall>r\<in>set ds. \<exists>b. matches_old_owner (h r) t old = Inr b" by simp
  show ?case using Cons.IH [OF rest] b acc by (cases b) simp_all
qed

lemma suppress_all_next_ref [simp]:
  "next_ref (suppress_all s ds n r) = next_ref s + length ds"
  by (induction ds arbitrary: s) simp_all

lemma suppress_all_suppressed [simp]:
  "suppressed_detections (suppress_all s ds n r) =
     suppressed_detections s @ [next_ref s ..< next_ref s + length ds]"
proof (induction ds arbitrary: s)
  case Nil
  then show ?case by simp
next
  case (Cons d ds)
  have "[next_ref s ..< next_ref s + length (d # ds)] =
          next_ref s # [Suc (next_ref s) ..< Suc (next_ref s) + length ds]"
    by (subst upt_rec) simp
  with Cons show ?case by simp
qed

lemma suppress_all_simps [simp]:
  "active_detections (suppress_all s ds n r) = active_detections s"
  "trace_ownership (suppress_all s ds n r) = trace_ownership s"
  "suppression_config (suppress_all s ds n r) = suppression_config s"
  "include_suppressed (suppress_all s ds n r) = include_suppressed s"
  by (induction ds arbitrary: s; simp)+

lemma suppress_all_objs_old:
  "x < next_ref s \<Longrightarrow> objs (suppress_all s ds n r) x = objs s x"
  by (induction ds arbitrary: s) simp_all

lemma suppress_all_objs_new:
  "\<forall>d\<in>set ds. d < next_ref s \<Longrightarrow> i < length ds \<Longrightarrow>
     objs (suppress_all s ds n r) (next_ref s + i) =
       suppressed_copy (objs s (ds ! i)) n r"
proof (induction ds arbitrary: s i)
  case Nil
  then show ?case by simp
next
  case (Cons d ds)
  let ?s = "add_suppressed_detection s d n r"
  show ?case
  proof (cases i)
    case 0
    have "objs (suppress_all ?s ds n r) (next_ref s) = objs ?s (next_ref s)"
      by (rule suppress_all_objs_old) simp
    with 0 show ?thesis by simp
  next
    case (Suc j)
    from Cons.prems have a: "\<forall>d\<in>set ds. d < next_ref ?s" by auto
    from Cons.prems Suc have j: "j < length ds" by simp
    from Cons.prems j have neq: "ds ! j \<noteq> next_ref s" by (metis nth_mem list.set_intros(2) nat_less_le)
    from Cons.IH [OF a j] Suc neq show ?thesis by simp
  qed
qed

lemma transfer_ownership_Inr:
  assumes "transfer_ownership s t old new = Inr s'"
  shows "active_detections s' = filter (\<lambda>r. \<not> is_match (objs s) t old r) (active_detections s)"
    and "suppressed_detections s' = suppressed_detections s @
           [next_ref s ..< next_ref s + length (filter (is_match (objs s) t old) (active_detections s))]"
    and "next_ref s' = next_ref s + length (filter (is_match (objs s) t old) (active_detections s))"
    and "trace_ownership s' = trace_ownership s"
    and "suppression_config s' = suppression_config s"
    and "include_suppressed s' = include_suppressed s"
    and "s' = (suppress_all s (filter (is_match (objs s) t old) (active_detections s)) old
                 (''superseded_by:'' @ new))
              \<lparr>active_detections :=
                 filter (\<lambda>r. \<not> is_match (objs s) t old r) (active_detections s)\<rparr>"
proof -
  from assms obtain ts ra where
    scan: "transfer_scan (objs s) t old (active_detections s) ([], []) = Inr (ts, ra)"
    and s': "s' = (suppress_all s ts old (''superseded_by:'' @ new))\<lparr>active_detections := ra\<rparr>"
    by (auto simp: transfer_ownership_def split: sum.splits)
  from transfer_scan_Inr [OF scan]
  have ts: "ts = filter (is_match (objs s) t old) (active_detections s)"
    and ra: "ra = filter (\<lambda>r. \<not> is_match (objs s) t old r) (active_detections s)"
    by simp_all
  show "active_detections s' = filter (\<lambda>r. \<not> is_match (objs s) t old r) (active_detections s)"
    using s' ra by simp
  show "suppressed_detections s' = suppressed_detections s @
           [next_ref s ..< next_ref s + length (filter (is_match (objs s) t old) (active_detections s))]"
    using s' ts by simp
  show "next_ref s' = next_ref s + length (filter (is_match (objs s) t old) (active_detections s))"
    using s' ts by simp
  show "trace_ownership s' = trace_ownership s" using s' by simp
  show "suppression_config s' = suppression_config s" using s' by simp
  show "include_suppressed s' = include_suppressed s" using s' by simp
  show "s' = (suppress_all s (filter (is_match (objs s) t old) (active_detections s)) old
                 (''superseded_by:'' @ new))
              \<lparr>active_detections :=
                 filter (\<lambda>r. \<not> is_match (objs s) t old r) (active_detections s)\<rparr>"
    using s' ts ra by simp
qed

lemma transfer_ownership_objs_old:
  assumes "transfer_ownership s t old new = Inr s'" and "x < next_ref s"
  shows "objs s' x = objs s x"
  using assms by (simp add: transfer_ownership_Inr(7) [OF assms(1)] suppress_all_objs_old)

lemma transfer_ownership_objs_new:
  assumes "transfer_ownership s t old new = Inr s'"
    and "\<forall>r\<in>set (active_detections s). r < next_ref s"
    and "i < length (filter (is_match (objs s) t old) (active_detections s))"
  shows "objs s' (next_ref s + i) =
           suppressed_copy (objs s (filter (is_match (objs s) t old) (active_detections s) ! i))
             old (''superseded_by:'' @ new)"
proof -
  let ?ts = "filter (is_match (objs s) t old) (active_detections s)"
  from assms(2) have "\<forall>d\<in>set ?ts. d < next_ref s" by simp
  from suppress_all_objs_new [OF this assms(3)] show ?thesis
    by (simp add: transfer_ownership_Inr(7) [OF assms(1)])
qed

lemma transfer_ownership_Inl:
  "transfer_ownership s t old new = Inl e \<Longrightarrow>
     \<exists>r\<in>set (active_detections s). matches_old_owner (objs s r) t old = Inl e"
proof -
  have scan: "transfer_scan h t old ds acc = Inl e \<Longrightarrow>
                \<exists>r\<in>set ds. matches_old_owner (h r) t old = Inl e" for h ds acc
  proof (induction ds arbitrary: acc)
    case Nil
    then show ?case by (cases acc) simp
  next
    case (Cons d ds)
    obtain ts ra where acc: "acc = (ts, ra)" by (cases acc)
    show ?case
    proof (cases "matches_old_owner (h d) t old")
      case (Inl e')
      with Cons.prems acc show ?thesis by simp
    next
      case (Inr b)
      with Cons.prems acc Cons.IH [of "(ts @ [d], ra)"] Cons.IH [of "(ts, ra @ [d])"]
      show ?thesis by (cases b) auto
    qed
  qed
  assume "transfer_ownership s t old new = Inl e"
  then have "transfer_scan (objs s) t old (active_detections s) ([], []) = Inl e"
    by (simp add: transfer_ownership_def split: sum.splits prod.splits)
  from scan [OF this] show ?thesis .
qed

text \<open>The five ways the loop body can go.\<close>

lemma process_detection_cases [consumes 0, case_names plain raise suppress claim transfer]:
  fixes s n d
  defines "t \<equiv> dict_get (objs s d) ''trace_id''"
  obtains
    "\<not> truthy t" "process_detection s n d = (s, Inr True)"
  | e where "truthy t" "process_detection s n d = (s, Inl e)"
  | reason where "truthy t" "hashable t"
      "process_detection s n d = (add_suppressed_detection s d n reason, Inr False)"
  | "truthy t" "hashable t"
      "trace_ownership s (py_key t) = None \<or>
         (\<exists>old. trace_ownership s (py_key t) = Some old \<and> priority_of n = priority_of old)"
      "process_detection s n d = (claim_ownership s n t d, Inr True)"
  | old s1 where "truthy t" "hashable t" "trace_ownership s (py_key t) = Some old"
      "priority_of n < priority_of old"
      "transfer_ownership s t old n = Inr s1"
      "process_detection s n d = (claim_ownership s1 n t d, Inr True)"
proof (cases "truthy t")
  case False
  then show ?thesis using that(1) by (simp add: process_detection_def t_def)
next
  case tr: True
  show ?thesis
  proof (cases "is_detector_suppressed s n t")
    case (Inl e)
    with tr that(2) show ?thesis by (simp add: process_detection_def t_def)
  next
    case (Inr b)
    show ?thesis
    proof (cases b)
      case True
      with Inr have h: "hashable t"
        by (auto simp: is_detector_suppressed_def Let_def split: if_splits)
      from True Inr tr that(3) [OF tr h] show ?thesis
        by (simp add: process_detection_def t_def)
    next
      case False
      note nb = False
      show ?thesis
      proof (cases "hashable t")
        case False
        with nb Inr tr that(2) show ?thesis by (simp add: process_detection_def t_def)
      next
        case h: True
        show ?thesis
        proof (cases "trace_ownership s (py_key t)")
          case None
          with nb Inr tr h that(4) show ?thesis by (simp add: process_detection_def t_def)
        next
          case (Some old)
          consider "priority_of n > priority_of old" | "priority_of n < priority_of old"
            | "priority_of n = priority_of old" by linarith
          then show ?thesis
          proof cases
            case 1
            with Some nb Inr tr h that(3) show ?thesis
              by (simp add: process_detection_def t_def)
          next
            case 2
            show ?thesis
            proof (cases "transfer_ownership s t old n")
              case (Inl e)
              with 2 Some nb Inr tr h that(2) show ?thesis
                by (simp add: process_detection_def t_def)
            next
              case (Inr s1)
              with 2 Some nb \<open>is_detector_suppressed s n t = Inr b\<close> tr h that(5) show ?thesis
                by (simp add: process_detection_def t_def)
            qed
          next
            case 3
            with Some nb Inr tr h that(4) show ?thesis
              by (simp add: process_detection_def t_def)
          qed
        qed
      qed
    qed
  qed
qed

section \<open>Frames and invariants\<close>

lemma frame_refl [simp]: "frame s s"
  by (simp add: frame_def)

lemma upt_append_upt: "a \<le> b \<Longrightarrow> b \<le> c \<Longrightarrow> [a..<b] @ [b..<c] = [a..<(c::nat)]"
  by (metis le_Suc_ex upt_add_eq_append)

lemma frame_trans: "frame s s1 \<Longrightarrow> frame s1 s2 \<Longrightarrow> frame s s2"
  unfolding frame_def by (auto simp: upt_append_upt)

lemma truthy_py_key [simp]: "truthy (py_key v) = truthy v"
  by (cases v) auto

lemma frame_add_suppressed: "frame s (add_suppressed_detection s d n r)"
  by (simp add: frame_def)

lemma frame_claim: "truthy t \<Longrightarrow> frame s (claim_ownership s n t d)"
  by (auto simp: frame_def)

lemma frame_transfer: "transfer_ownership s t old new = Inr s' \<Longrightarrow> frame s s'"
  by (simp add: frame_def transfer_ownership_Inr(2,3,4,5,6) transfer_ownership_objs_old)

lemma frame_active_update [simp]:
  "frame s (s'\<lparr>active_detections := xs\<rparr>) = frame s s'"
  by (simp add: frame_def)

lemma frame_process_detection: "frame s (fst (process_detection s n d))"
proof (cases rule: process_detection_cases [of s d n])
  case plain
  then show ?thesis by simp
next
  case (raise e)
  then show ?thesis by simp
next
  case (suppress reason)
  then show ?thesis by (simp add: frame_add_suppressed)
next
  case claim
  then show ?thesis by (simp add: frame_claim)
next
  case (transfer old s1)
  from frame_transfer [OF transfer(5)] frame_claim [OF transfer(1), of s1 n d] transfer(6)
  show ?thesis by (auto intro: frame_trans)
qed

lemma frame_process_loop: "frame s (fst (process_loop s n ds active))"
proof (induction ds arbitrary: s active)
  case Nil
  then show ?case by simp
next
  case (Cons d ds)
  obtain s1 res where step: "process_detection s n d = (s1, res)" by (cases "process_detection s n d")
  from frame_process_detection [of s n d] step have f1: "frame s s1" by simp
  show ?case
  proof (cases res)
    case (Inl e)
    with step f1 show ?thesis by simp
  next
    case (Inr b)
    from Cons.IH [of s1] have "frame s1 (fst (process_loop s1 n ds acc))" for acc .
    with f1 have "frame s (fst (process_loop s1 n ds acc))" for acc by (rule frame_trans)
    with step Inr show ?thesis by (cases b) simp_all
  qed
qed

lemma frame_process_detections: "frame s (fst (process_detections s n ds))"
  using frame_process_loop [of s n ds "[]"]
  by (auto simp: process_detections_def split: prod.splits sum.splits)

lemma frame_process_all: "frame s (process_all s calls)"
proof (induction calls arbitrary: s)
  case Nil
  then show ?case by simp
next
  case (Cons c calls)
  obtain n ds where c: "c = (n, ds)" by (cases c)
  from frame_process_detections [of s n ds] Cons.IH [of "fst (process_detections s n ds)"] c
  show ?case by (auto intro: frame_trans)
qed

lemma active_process_detection:
  "set (active_detections (fst (process_detection s n d))) \<subseteq> set (active_detections s)"
proof (cases rule: process_detection_cases [of s d n])
  case (transfer old s1)
  then show ?thesis by (auto simp: transfer_ownership_Inr(1) [OF transfer(5)])
qed simp_all

lemma active_process_loop:
  "set (active_detections (fst (process_loop s n ds active))) \<subseteq> set (active_detections s)"
proof (induction ds arbitrary: s active)
  case Nil
  then show ?case by simp
next
  case (Cons d ds)
  obtain s1 res where step: "process_detection s n d = (s1, res)" by (cases "process_detection s n d")
  from active_process_detection [of s n d] step
  have f1: "set (active_detections s1) \<subseteq> set (active_detections s)" by simp
  show ?case
  proof (cases res)
    case (Inl e)
    with step f1 show ?thesis by simp
  next
    case (Inr b)
    from Cons.IH [of s1] f1
    have "set (active_detections (fst (process_loop s1 n ds acc))) \<subseteq> set (active_detections s)" for acc
      by blast
    with step Inr show ?thesis by (cases b) simp_all
  qed
qed

lemma local_process_loop:
  "process_loop s n ds active = (s', Inr active') \<Longrightarrow>
     set active' \<subseteq> set active \<union> set ds \<and> set active \<subseteq> set active'"
proof (induction ds arbitrary: s active)
  case Nil
  then show ?case by simp
next
  case (Cons d ds)
  obtain s1 res where step: "process_detection s n d = (s1, res)" by (cases "process_detection s n d")
  show ?case
  proof (cases res)
    case (Inl e)
    with step Cons.prems show ?thesis by simp
  next
    case (Inr b)
    show ?thesis
    proof (cases b)
      case True
      with step Inr Cons.prems have "process_loop s1 n ds (active @ [d]) = (s', Inr active')" by simp
      from Cons.IH [OF this] show ?thesis by auto
    next
      case False
      with step Inr Cons.prems have "process_loop s1 n ds active = (s', Inr active')" by simp
      from Cons.IH [OF this] show ?thesis by auto
    qed
  qed
qed

lemma active_process_detections:
  "set (active_detections (fst (process_detections s n ds))) \<subseteq> set (active_detections s) \<union> set ds"
proof (cases "process_loop s n ds []")
  case (Pair s1 res)
  from active_process_loop [of s n ds "[]"] Pair
  have a: "set (active_detections s1) \<subseteq> set (active_detections s)" by simp
  show ?thesis
  proof (cases res)
    case (Inl e)
    with Pair a show ?thesis by (auto simp: process_detections_def)
  next
    case (Inr act)
    from local_process_loop [of s n ds "[]" s1 act] Pair Inr have "set act \<subseteq> set ds" by simp
    with Pair Inr a show ?thesis by (auto simp: process_detections_def)
  qed
qed

lemma active_process_all:
  "set (active_detections (process_all s calls)) \<subseteq>
     set (active_detections s) \<union> set (concat (map snd calls))"
proof (induction calls arbitrary: s)
  case Nil
  then show ?case by simp
next
  case (Cons c calls)
  obtain n ds where c: "c = (n, ds)" by (cases c)
  from active_process_detections [of s n ds] Cons.IH [of "fst (process_detections s n ds)"] c
  show ?case by auto
qed

lemma frame_trace_id:
  "frame s s' \<Longrightarrow> x < next_ref s \<Longrightarrow>
     dict_get (objs s' x) ''trace_id'' = dict_get (objs s x) ''trace_id''"
  by (simp add: frame_def dict_get_def)

lemma frame_type:
  "frame s s' \<Longrightarrow> x < next_ref s \<Longrightarrow> objs s' x ''type'' = objs s x ''type''"
  by (simp add: frame_def)

lemma frame_next_ref: "frame s s' \<Longrightarrow> x < next_ref s \<Longrightarrow> x < next_ref s'"
  by (simp add: frame_def)

lemma falsy_not_py_eq: "\<not> truthy v \<Longrightarrow> truthy t \<Longrightarrow> \<not> py_eq v t"
  by (metis py_eq_def truthy_py_key)

lemma falsy_not_match:
  "\<not> truthy (dict_get (h r) ''trace_id'') \<Longrightarrow> truthy t \<Longrightarrow> \<not> is_match h t old r"
  by (simp add: is_match_def matches_old_owner_def falsy_not_py_eq)

lemma falsy_step:
  "\<not> truthy (dict_get (objs s d) ''trace_id'') \<Longrightarrow> process_detection s n d = (s, Inr True)"
  by (simp add: process_detection_def)

lemma falsy_stays_step:
  assumes "\<not> truthy (dict_get (objs s r) ''trace_id'')" and "r \<in> set (active_detections s)"
  shows "r \<in> set (active_detections (fst (process_detection s n d)))"
proof (cases rule: process_detection_cases [of s d n])
  case (transfer old s1)
  with assms falsy_not_match [of "objs s" r, OF assms(1) transfer(1)] show ?thesis
    by (simp add: transfer_ownership_Inr(1) [OF transfer(5)])
qed (use assms in simp_all)

lemma falsy_stays_loop:
  assumes "\<not> truthy (dict_get (objs s r) ''trace_id'')" and "r < next_ref s"
    and "r \<in> set (active_detections s)"
  shows "r \<in> set (active_detections (fst (process_loop s n ds active)))"
  using assms
proof (induction ds arbitrary: s active)
  case Nil
  then show ?case by simp
next
  case (Cons d ds)
  obtain s1 res where step: "process_detection s n d = (s1, res)" by (cases "process_detection s n d")
  from frame_process_detection [of s n d] step have f: "frame s s1" by simp
  from falsy_stays_step [OF Cons.prems(1,3), of n d] step have a: "r \<in> set (active_detections s1)" by simp
  from frame_trace_id [OF f Cons.prems(2)] Cons.prems(1)
  have t: "\<not> truthy (dict_get (objs s1 r) ''trace_id'')" by simp
  from frame_next_ref [OF f Cons.prems(2)] have n: "r < next_ref s1" .
  show ?case
  proof (cases res)
    case (Inl e)
    with step a show ?thesis by simp
  next
    case (Inr b)
    with step Cons.IH [OF t n a] show ?thesis by (cases b) simp_all
  qed
qed

lemma falsy_stays_call:
  assumes "\<not> truthy (dict_get (objs s r) ''trace_id'')" and "r < next_ref s"
    and "r \<in> set (active_detections s)"
  shows "r \<in> set (active_detections (fst (process_detections s n ds)))"
  using falsy_stays_loop [OF assms, of n ds "[]"]
  by (auto simp: process_detections_def split: prod.splits sum.splits)

lemma falsy_stays_all:
  assumes "\<not> truthy (dict_get (objs s r) ''trace_id'')" and "r < next_ref s"
    and "r \<in> set (active_detections s)"
  shows "r \<in> set (active_detections (process_all s calls))"
  using assms
proof (induction calls arbitrary: s)
  case Nil
  then show ?case by simp
next
  case (Cons c calls)
  obtain n ds where c: "c = (n, ds)" by (cases c)
  let ?s1 = "fst (process_detections s n ds)"
  have f: "frame s ?s1" by (rule frame_process_detections)
  from frame_trace_id [OF f Cons.prems(2)] Cons.prems(1)
  have t: "\<not> truthy (dict_get (objs ?s1 r) ''trace_id'')" by simp
  from Cons.IH [OF t frame_next_ref [OF f Cons.prems(2)] falsy_stays_call [OF Cons.prems]] c
  show ?case by simp
qed

lemma falsy_returned_loop:
  assumes "d \<in> set ds" and "\<not> truthy (dict_get (objs s d) ''trace_id'')" and "d < next_ref s"
    and "process_loop s n ds active = (s', Inr active')"
  shows "d \<in> set active'"
  using assms
proof (induction ds arbitrary: s active)
  case Nil
  then show ?case by simp
next
  case (Cons x ds)
  obtain s1 res where step: "process_detection s n x = (s1, res)" by (cases "process_detection s n x")
  from frame_process_detection [of s n x] step have f: "frame s s1" by simp
  from frame_trace_id [OF f Cons.prems(3)] Cons.prems(2)
  have t: "\<not> truthy (dict_get (objs s1 d) ''trace_id'')" by simp
  from frame_next_ref [OF f Cons.prems(3)] have nx: "d < next_ref s1" .
  show ?case
  proof (cases "x = d")
    case True
    with falsy_step [OF Cons.prems(2), of n] step have "s1 = s" "res = Inr True" by simp_all
    with step Cons.prems(4) have "process_loop s n ds (active @ [x]) = (s', Inr active')" by simp
    from local_process_loop [OF this] True show ?thesis by auto
  next
    case False
    with Cons.prems(1) have mem: "d \<in> set ds" by simp
    show ?thesis
    proof (cases res)
      case (Inl e)
      with step Cons.prems(4) show ?thesis by simp
    next
      case (Inr b)
      with step Cons.prems(4) Cons.IH [OF mem t nx] show ?thesis by (cases b) simp_all
    qed
  qed
qed

lemma falsy_accepted:
  assumes "d \<in> set ds" and "\<not> truthy (dict_get (objs s d) ''trace_id'')" and "d < next_ref s"
    and "process_detections s n ds = (s', Inr active)"
  shows "d \<in> set active \<and> d \<in> set (active_detections (process_all s' calls))"
proof -
  from assms(4) obtain s1 where loop: "process_loop s n ds [] = (s1, Inr active)"
    and s': "s' = s1\<lparr>active_detections := active_detections s1 @ active\<rparr>"
    by (auto simp: process_detections_def split: prod.splits sum.splits)
  from falsy_returned_loop [OF assms(1,2,3) loop] have a: "d \<in> set active" .
  from frame_process_detections [of s n ds] assms(4) have f: "frame s s'" by simp
  from frame_trace_id [OF f assms(3)] assms(2)
  have t: "\<not> truthy (dict_get (objs s' d) ''trace_id'')" by simp
  from a s' have "d \<in> set (active_detections s')" by simp
  from falsy_stays_all [OF t frame_next_ref [OF f assms(3)] this] a show ?thesis by simp
qed

lemma falsy_key_untouched:
  "\<not> truthy k \<Longrightarrow> trace_ownership (process_all s calls) k = trace_ownership s k"
  using frame_process_all [of s calls] by (simp add: frame_def)

lemma priority_of_ge_1: "1 \<le> priority_of n"
  by (simp add: priority_of_def DETECTOR_PRIORITY_def)

lemma priority_of_RetryLoop [simp]: "priority_of ''RetryLoopDetector'' = 1"
  by (simp add: priority_of_def DETECTOR_PRIORITY_def)

lemma not_config_suppressed_below:
  assumes "hashable t" and "trace_ownership s (py_key t) = Some old"
    and "priority_of n < priority_of old"
  shows "is_detector_suppressed s n t = Inr False"
proof -
  from assms(3) priority_of_ge_1 [of n] have "old \<noteq> ''RetryLoopDetector''" by auto
  with assms(1,2) show ?thesis by (simp add: is_detector_suppressed_def Let_def)
qed

lemma str_contains_Nil [simp]: "str_contains [] s"
  by (induction s) simp_all

lemma normalize_type_Nil [simp]: "normalize_type [] = []"
  by (simp add: normalize_type_def str_lower_def)

lemma suppressed_copy_fields:
  "suppressed_copy d n r ''suppressed_by'' = Some (PStr n)"
  "suppressed_copy d n r ''suppression_reason'' = Some (PStr r)"
  "suppressed_copy d n r ''detector'' = Some (PStr n)"
  by (simp_all add: suppressed_copy_def)

lemma suppressed_copy_other:
  "k \<notin> {''suppressed_by'', ''suppression_reason'', ''detector''} \<Longrightarrow>
     suppressed_copy d n r k = d k"
  by (simp add: suppressed_copy_def)

lemma transfer_ownership_no_raise:
  assumes "\<forall>r\<in>set (active_detections s). py_eq (dict_get (objs s r) ''trace_id'') t \<longrightarrow>
             (\<exists>ty. dict_get_default (objs s r) ''type'' (PStr []) = PStr ty)"
  shows "\<exists>s'. transfer_ownership s t old new = Inr s'"
proof -
  have "\<forall>r\<in>set (active_detections s). \<exists>b. matches_old_owner (objs s r) t old = Inr b"
    using assms by (auto simp: matches_old_owner_def)
  from transfer_scan_no_raise [OF this, of "([], [])"] show ?thesis
    by (auto simp: transfer_ownership_def)
qed

lemma fst_snd_eq: "snd p = b \<Longrightarrow> p = (fst p, b)"
  by auto











lemma contents_append [simp]: "contents s (xs @ ys) = contents s xs + contents s ys"
  by (simp add: contents_def)

lemma contents_Nil [simp]: "contents s [] = {#}"
  by (simp add: contents_def)

lemma contents_Cons [simp]: "contents s (r # xs) = add_mset (core (objs s r)) (contents s xs)"
  by (simp add: contents_def)

lemma contents_single: "contents s [r] = {#core (objs s r)#}"
  by (simp add: contents_def)

lemma contents_active_update [simp]:
  "contents (s\<lparr>active_detections := xs\<rparr>) ys = contents s ys"
  by (simp add: contents_def)

lemma core_suppressed_copy [simp]: "core (suppressed_copy d n r) = core d"
  by (auto simp: core_def suppressed_copy_def restrict_map_def)

lemma core_frame:
  assumes "frame s s'" and "x < next_ref s"
  shows "core (objs s' x) = core (objs s x)"
proof
  fix k
  from assms show "core (objs s' x) k = core (objs s x) k"
    by (cases "k = ''suppressed_by''") (simp_all add: core_def frame_def restrict_map_def)
qed

lemma contents_frame:
  assumes "frame s s'" and "\<forall>r\<in>set xs. r < next_ref s"
  shows "contents s' xs = contents s xs"
  unfolding contents_def
  by (rule image_mset_cong) (use assms in \<open>simp add: core_frame\<close>)

lemma allocated_frame:
  assumes "frame s s'" and "allocated s"
    and "set (active_detections s') \<subseteq> set (active_detections s) \<union> set ds"
    and "\<forall>r\<in>set ds. r < next_ref s"
  shows "allocated s'"
proof -
  from assms(1) have n: "next_ref s \<le> next_ref s'"
    and sup: "suppressed_detections s' = suppressed_detections s @ [next_ref s ..< next_ref s']"
    by (simp_all add: frame_def)
  have "r < next_ref s'" if "r \<in> set (active_detections s') \<union> set (suppressed_detections s')" for r
  proof -
    from that sup assms(3) consider "r \<in> set (active_detections s) \<union> set (suppressed_detections s)"
      | "r \<in> set ds" | "r \<in> set [next_ref s ..< next_ref s']" by auto
    then show ?thesis
    proof cases
      case 1
      with assms(2) have "r < next_ref s" by (simp add: allocated_def)
      with n show ?thesis by simp
    next
      case 2
      with assms(4) have "r < next_ref s" by simp
      with n show ?thesis by simp
    next
      case 3
      then show ?thesis by simp
    qed
  qed
  then show ?thesis by (simp add: allocated_def)
qed

lemma contents_transfer:
  assumes t: "transfer_ownership s tid old new = Inr s'" and a: "allocated s"
  shows "contents s' (active_detections s') + contents s' (suppressed_detections s') =
         contents s (active_detections s) + contents s (suppressed_detections s)"
proof -
  let ?moved = "filter (is_match (objs s) tid old) (active_detections s)"
  let ?kept = "filter (\<lambda>r. \<not> is_match (objs s) tid old r) (active_detections s)"
  have f: "frame s s'" by (rule frame_transfer [OF t])
  from a have act: "\<forall>r\<in>set (active_detections s). r < next_ref s"
    and sup: "\<forall>r\<in>set (suppressed_detections s). r < next_ref s"
    by (simp_all add: allocated_def)
  have "map (\<lambda>r. core (objs s' r)) [next_ref s ..< next_ref s + length ?moved] =
        map (\<lambda>r. core (objs s r)) ?moved"
    by (rule nth_equalityI) (simp_all add: transfer_ownership_objs_new [OF t act])
  then have new: "contents s' [next_ref s ..< next_ref s + length ?moved] = contents s ?moved"
    unfolding contents_def by (metis mset_map)
  from act have "contents s' ?kept = contents s ?kept"
    by (intro contents_frame [OF f]) simp
  moreover from sup have "contents s' (suppressed_detections s) = contents s (suppressed_detections s)"
    by (intro contents_frame [OF f]) simp
  moreover have "contents s ?kept + contents s ?moved = contents s (active_detections s)"
    unfolding contents_def by (simp flip: image_mset_union)
  ultimately show ?thesis
    using new by (simp add: transfer_ownership_Inr(1,2) [OF t] ac_simps)
qed

lemma contents_step:
  assumes step: "process_detection s n d = (s', Inr b)" and a: "allocated s"
    and d: "d < next_ref s"
  shows "contents s' (active_detections s') + contents s' (suppressed_detections s') +
           (if b then {#core (objs s' d)#} else {#}) =
         contents s (active_detections s) + contents s (suppressed_detections s) +
           {#core (objs s d)#}"
proof -
  from a have act: "\<forall>r\<in>set (active_detections s). r < next_ref s"
    and sup: "\<forall>r\<in>set (suppressed_detections s). r < next_ref s"
    by (simp_all add: allocated_def)
  show ?thesis
  proof (cases rule: process_detection_cases [of s d n])
    case plain
    with step show ?thesis by simp
  next
    case (raise e)
    with step show ?thesis by simp
  next
    case (suppress reason)
    let ?s = "add_suppressed_detection s d n reason"
    have f: "frame s ?s" by (rule frame_add_suppressed)
    from suppress step have s': "s' = ?s" and b: "\<not> b" by simp_all
    from contents_frame [OF f act] contents_frame [OF f sup] show ?thesis
      by (simp add: s' b)
  next
    case claim
    let ?s = "claim_ownership s n (dict_get (objs s d) ''trace_id'') d"
    have f: "frame s ?s" by (rule frame_claim [OF claim(1)])
    from claim step have s': "s' = ?s" and b: "b" by simp_all
    from contents_frame [OF f act] contents_frame [OF f sup] core_frame [OF f d] show ?thesis
      by (simp add: s' b)
  next
    case (transfer old s1)
    let ?t = "dict_get (objs s d) ''trace_id''"
    let ?s = "claim_ownership s1 n ?t d"
    have f1: "frame s s1" by (rule frame_transfer [OF transfer(5)])
    have f2: "frame s1 ?s" by (rule frame_claim [OF transfer(1)])
    from transfer step have s': "s' = ?s" and b: "b" by simp_all
    have a1: "allocated s1"
      by (rule allocated_frame [OF f1 a, of "[]"]) (simp_all add: transfer_ownership_Inr(1) [OF transfer(5)])
    then have act1: "\<forall>r\<in>set (active_detections s1). r < next_ref s1"
      and sup1: "\<forall>r\<in>set (suppressed_detections s1). r < next_ref s1"
      by (simp_all add: allocated_def)
    from frame_next_ref [OF f1 d] have d1: "d < next_ref s1" .
    from contents_frame [OF f2 act1] contents_frame [OF f2 sup1]
      core_frame [OF f2 d1] core_frame [OF f1 d] contents_transfer [OF transfer(5) a]
    show ?thesis by (simp add: s' b)
  qed
qed

lemma allocated_step:
  assumes "allocated s"
  shows "allocated (fst (process_detection s n d))"
proof (rule allocated_frame [OF frame_process_detection assms, of _ _ "[]"])
  show "set (active_detections (fst (process_detection s n d))) \<subseteq> set (active_detections s) \<union> set []"
    using active_process_detection [of s n d] by simp
qed simp

lemma contents_loop:
  assumes "process_loop s n ds local = (s', Inr local')" and "allocated s"
    and "\<forall>r\<in>set ds \<union> set local. r < next_ref s"
  shows "contents s' (active_detections s') + contents s' (suppressed_detections s') +
           contents s' local' =
         contents s (active_detections s) + contents s (suppressed_detections s) +
           contents s local + contents s ds"
  using assms
proof (induction ds arbitrary: s local)
  case Nil
  then show ?case by simp
next
  case (Cons d ds)
  obtain s1 res where step: "process_detection s n d = (s1, res)" by (cases "process_detection s n d")
  with Cons.prems(1) obtain b where res: "res = Inr b" by (cases res) simp_all
  from frame_process_detection [of s n d] step have f: "frame s s1" by simp
  from allocated_step [OF Cons.prems(2), of n d] step have a1: "allocated s1" by simp
  from Cons.prems(3) have d: "d < next_ref s" and loc: "\<forall>r\<in>set local. r < next_ref s" by simp_all
  from Cons.prems(3) f have rest: "\<forall>r\<in>set ds. r < next_ref s1" by (auto intro: frame_next_ref)
  from loc f have loc1: "\<forall>r\<in>set local. r < next_ref s1" by (auto intro: frame_next_ref)
  from frame_next_ref [OF f d] have d1: "d < next_ref s1" .
  note st = contents_step [OF step [unfolded res] Cons.prems(2) d]
  note cl = contents_frame [OF f loc]
  from Cons.prems(3) have "\<forall>r\<in>set ds. r < next_ref s" by simp
  note cd = contents_frame [OF f this]
  show ?case
  proof (cases b)
    case True
    with step res Cons.prems(1) have "process_loop s1 n ds (local @ [d]) = (s', Inr local')" by simp
    moreover note a1
    moreover from rest loc1 d1 have "\<forall>r\<in>set ds \<union> set (local @ [d]). r < next_ref s1" by auto
    ultimately have "contents s' (active_detections s') + contents s' (suppressed_detections s') +
           contents s' local' =
         contents s1 (active_detections s1) + contents s1 (suppressed_detections s1) +
           contents s1 (local @ [d]) + contents s1 ds"
      by (rule Cons.IH)
    with st cl cd True show ?thesis
      by (simp add: ac_simps)
  next
    case False
    with step res Cons.prems(1) have "process_loop s1 n ds local = (s', Inr local')" by simp
    moreover note a1
    moreover from rest loc1 have "\<forall>r\<in>set ds \<union> set local. r < next_ref s1" by auto
    ultimately have "contents s' (active_detections s') + contents s' (suppressed_detections s') +
           contents s' local' =
         contents s1 (active_detections s1) + contents s1 (suppressed_detections s1) +
           contents s1 local + contents s1 ds"
      by (rule Cons.IH)
    with st cl cd False show ?thesis
      by (simp add: ac_simps)
  qed
qed

lemma allocated_call:
  assumes "allocated s" and "\<forall>r\<in>set ds. r < next_ref s"
  shows "allocated (fst (process_detections s n ds))"
  by (rule allocated_frame [OF frame_process_detections assms(1) active_process_detections assms(2)])

lemma contents_call:
  assumes "process_detections s n ds = (s', Inr act)" and "allocated s"
    and "\<forall>r\<in>set ds. r < next_ref s"
  shows "contents s' (active_detections s') + contents s' (suppressed_detections s') =
         contents s (active_detections s) + contents s (suppressed_detections s) + contents s ds"
proof -
  from assms(1) obtain s1 where loop: "process_loop s n ds [] = (s1, Inr act)"
    and s': "s' = s1\<lparr>active_detections := active_detections s1 @ act\<rparr>"
    by (auto simp: process_detections_def split: prod.splits sum.splits)
  from contents_loop [OF loop assms(2)] assms(3) show ?thesis by (simp add: s' ac_simps)
qed

lemma contents_all:
  assumes "completes s calls" and "allocated s"
    and "\<forall>r\<in>set (concat (map snd calls)). r < next_ref s"
  shows "contents (process_all s calls) (active_detections (process_all s calls)) +
         contents (process_all s calls) (suppressed_detections (process_all s calls)) =
         contents s (active_detections s) + contents s (suppressed_detections s) +
           contents s (concat (map snd calls))"
  using assms
proof (induction calls arbitrary: s)
  case Nil
  then show ?case by simp
next
  case (Cons c calls)
  obtain n ds where c: "c = (n, ds)" by (cases c)
  from Cons.prems(1) c obtain s1 act where call: "process_detections s n ds = (s1, Inr act)"
    and rest: "completes s1 calls"
    by (auto split: prod.splits sum.splits)
  from frame_process_detections [of s n ds] call have f: "frame s s1" by simp
  from Cons.prems(3) c have ds: "\<forall>r\<in>set ds. r < next_ref s"
    and later: "\<forall>r\<in>set (concat (map snd calls)). r < next_ref s" by simp_all
  from allocated_call [OF Cons.prems(2) ds, of n] call have a1: "allocated s1" by simp
  from later f have later1: "\<forall>r\<in>set (concat (map snd calls)). r < next_ref s1"
    by (auto intro: frame_next_ref)
  from Cons.IH [OF rest a1 later1] contents_call [OF call Cons.prems(2) ds]
    contents_frame [OF f later] call c
  show ?case by (simp add: ac_simps)
qed

lemma frame_type_matches:
  "frame s s' \<Longrightarrow> x < next_ref s \<Longrightarrow> type_matches (objs s' x) n = type_matches (objs s x) n"
  by (simp add: type_matches_def dict_get_default_def frame_type)

lemma own_inv_frame:
  assumes "frame s s'" and "trace_ownership s' = trace_ownership s" and "own_inv P s xs"
  shows "own_inv P s' xs"
  using assms
  by (auto simp: own_inv_def frame_trace_id frame_type_matches intro: frame_next_ref)

lemma own_inv_subset: "own_inv P s xs \<Longrightarrow> set ys \<subseteq> set xs \<Longrightarrow> own_inv P s ys"
  by (auto simp: own_inv_def)

lemma own_inv_append [simp]: "own_inv P s (xs @ ys) \<longleftrightarrow> own_inv P s xs \<and> own_inv P s ys"
  by (auto simp: own_inv_def)

lemma own_inv_active_update [simp]:
  "own_inv P (s\<lparr>active_detections := zs\<rparr>) xs = own_inv P s xs"
  by (simp add: own_inv_def)

lemma own_inv_claim:
  assumes inv: "own_inv P s xs" and tr: "truthy t"
    and same: "\<forall>r\<in>set xs. truthy (dict_get (objs s r) ''trace_id'') \<longrightarrow>
                 py_key (dict_get (objs s r) ''trace_id'') = py_key t \<longrightarrow> P r = n"
  shows "own_inv P (claim_ownership s n t d) xs"
  unfolding own_inv_def
proof
  fix r
  assume r: "r \<in> set xs"
  let ?s = "claim_ownership s n t d"
  have f: "frame s ?s" by (rule frame_claim [OF tr])
  from inv r have lt: "r < next_ref s" and tm: "type_matches (objs s r) (P r)"
    and own: "truthy (dict_get (objs s r) ''trace_id'') \<longrightarrow>
           trace_ownership s (py_key (dict_get (objs s r) ''trace_id'')) = Some (P r)"
    by (simp_all add: own_inv_def)
  have tid: "dict_get (objs ?s r) ''trace_id'' = dict_get (objs s r) ''trace_id''"
    by (rule frame_trace_id [OF f lt])
  from same r own
  have "truthy (dict_get (objs s r) ''trace_id'') \<longrightarrow>
          trace_ownership ?s (py_key (dict_get (objs s r) ''trace_id'')) = Some (P r)"
    by auto
  with tid frame_next_ref [OF f lt] frame_type_matches [OF f lt, of "P r"] tm
  show "r < next_ref ?s \<and> type_matches (objs ?s r) (P r) \<and>
        (truthy (dict_get (objs ?s r) ''trace_id'') \<longrightarrow>
           trace_ownership ?s (py_key (dict_get (objs ?s r) ''trace_id'')) = Some (P r))"
    by simp
qed

lemma type_matches_is_match:
  "type_matches (h r) old \<Longrightarrow> py_eq (dict_get (h r) ''trace_id'') t \<Longrightarrow> is_match h t old r"
  by (auto simp: type_matches_def is_match_def matches_old_owner_def split: pyval.splits)

lemma own_step:
  assumes step: "process_detection s n d = (s', res)"
    and J: "own_inv P s (active_detections s)"
    and L: "own_inv P s local" and Ln: "\<forall>r\<in>set local. P r = n"
    and K: "ran (trace_ownership s) \<subseteq> N" and inj: "inj_on priority_of N" and nN: "n \<in> N"
    and d: "d < next_ref s" and Pd: "P d = n" and tm: "type_matches (objs s d) n"
  shows "own_inv P s' (active_detections s') \<and> own_inv P s' local \<and>
         ran (trace_ownership s') \<subseteq> N \<and> (res = Inr True \<longrightarrow> own_inv P s' [d])"
proof (cases rule: process_detection_cases [of s d n])
  case plain
  with step have "s' = s" by simp
  with J L K plain(1) d Pd tm show ?thesis by (simp add: own_inv_def)
next
  case (raise e)
  with step J L K show ?thesis by auto
next
  case (suppress reason)
  let ?s = "add_suppressed_detection s d n reason"
  have f: "frame s ?s" by (rule frame_add_suppressed)
  from suppress step have s': "s' = ?s" and res: "res = Inr False" by simp_all
  from own_inv_frame [OF f _ J] own_inv_frame [OF f _ L] K show ?thesis
    by (simp add: s' res)
next
  case claim
  let ?t = "dict_get (objs s d) ''trace_id''"
  let ?s = "claim_ownership s n ?t d"
  from claim step have s': "s' = ?s" by simp
  have same: "P r = n" if r: "r \<in> set xs" and inv: "own_inv P s xs"
    and tr: "truthy (dict_get (objs s r) ''trace_id'')"
    and key: "py_key (dict_get (objs s r) ''trace_id'') = py_key ?t" for r xs
  proof -
    from inv r tr key have o: "trace_ownership s (py_key ?t) = Some (P r)"
      by (auto simp: own_inv_def)
    with claim(3) have p: "priority_of n = priority_of (P r)" by auto
    from o K have "P r \<in> N" by (auto simp: ran_def)
    with inj nN p show ?thesis by (auto dest: inj_onD)
  qed
  have a: "own_inv P ?s (active_detections s)"
    by (rule own_inv_claim [OF J claim(1)]) (use same [OF _ J] in blast)
  have b: "own_inv P ?s local"
    by (rule own_inv_claim [OF L claim(1)]) (use same [OF _ L] in blast)
  have f: "frame s ?s" by (rule frame_claim [OF claim(1)])
  from frame_trace_id [OF f d] frame_next_ref [OF f d] frame_type_matches [OF f d, of n] tm Pd
  have c: "own_inv P ?s [d]" by (simp add: own_inv_def)
  from K nN have k: "ran (trace_ownership ?s) \<subseteq> N"
    by (auto simp: ran_def split: if_splits)
  from a b c k show ?thesis by (simp add: s')
next
  case (transfer old s1)
  let ?t = "dict_get (objs s d) ''trace_id''"
  let ?s = "claim_ownership s1 n ?t d"
  note t = transfer(5)
  from transfer step have s': "s' = ?s" by simp
  have f1: "frame s s1" by (rule frame_transfer [OF t])
  have f2: "frame s1 ?s" by (rule frame_claim [OF transfer(1)])
  have tab: "trace_ownership s1 = trace_ownership s" by (rule transfer_ownership_Inr(4) [OF t])
  have act1: "active_detections s1 =
      filter (\<lambda>r. \<not> is_match (objs s) ?t old r) (active_detections s)"
    by (rule transfer_ownership_Inr(1) [OF t])
  from own_inv_frame [OF f1 tab J] have J1': "own_inv P s1 (active_detections s)" .
  then have J1: "own_inv P s1 (active_detections s1)"
    by (rule own_inv_subset) (simp add: act1)
  from own_inv_frame [OF f1 tab L] have L1: "own_inv P s1 local" .
  have no_active: False if r: "r \<in> set (active_detections s1)"
    and tr: "truthy (dict_get (objs s1 r) ''trace_id'')"
    and key: "py_key (dict_get (objs s1 r) ''trace_id'') = py_key ?t" for r
  proof -
    from r act1 have ra: "r \<in> set (active_detections s)" and nm: "\<not> is_match (objs s) ?t old r"
      by simp_all
    from J ra have lt: "r < next_ref s" and tmr: "type_matches (objs s r) (P r)"
      and own: "truthy (dict_get (objs s r) ''trace_id'') \<longrightarrow>
           trace_ownership s (py_key (dict_get (objs s r) ''trace_id'')) = Some (P r)"
      by (simp_all add: own_inv_def)
    from frame_trace_id [OF f1 lt] tr key
    have tr0: "truthy (dict_get (objs s r) ''trace_id'')"
      and key0: "py_key (dict_get (objs s r) ''trace_id'') = py_key ?t" by simp_all
    with own transfer(3) have "P r = old" by simp
    with tmr key0 have "is_match (objs s) ?t old r"
      by (intro type_matches_is_match) (simp_all add: py_eq_def)
    with nm show False by simp
  qed
  have no_local: False if r: "r \<in> set local"
    and tr: "truthy (dict_get (objs s1 r) ''trace_id'')"
    and key: "py_key (dict_get (objs s1 r) ''trace_id'') = py_key ?t" for r
  proof -
    from L1 r tr key tab have "trace_ownership s (py_key ?t) = Some (P r)"
      by (auto simp: own_inv_def)
    with Ln r transfer(3) have "old = n" by simp
    with transfer(4) show False by simp
  qed
  have a: "own_inv P ?s (active_detections s1)"
    by (rule own_inv_claim [OF J1 transfer(1)]) (use no_active in blast)
  have b: "own_inv P ?s local"
    by (rule own_inv_claim [OF L1 transfer(1)]) (use no_local in blast)
  from frame_next_ref [OF f1 d] have d1: "d < next_ref s1" .
  from frame_trace_id [OF f1 d] have tid1: "dict_get (objs s1 d) ''trace_id'' = ?t" .
  from frame_type_matches [OF f1 d, of n] tm have tm1: "type_matches (objs s1 d) n" by simp
  from frame_trace_id [OF f2 d1] frame_next_ref [OF f2 d1] frame_type_matches [OF f2 d1, of n]
    tm1 tid1 Pd
  have c: "own_inv P ?s [d]" by (simp add: own_inv_def)
  from K nN tab have k: "ran (trace_ownership ?s) \<subseteq> N"
    by (auto simp: ran_def split: if_splits)
  from a b c k show ?thesis by (simp add: s')
qed

lemma own_loop:
  assumes "process_loop s n ds local = (s', res)"
    and "own_inv P s (active_detections s)"
    and "own_inv P s local" and "\<forall>r\<in>set local. P r = n"
    and "ran (trace_ownership s) \<subseteq> N" and inj: "inj_on priority_of N" and nN: "n \<in> N"
    and "\<forall>r\<in>set ds. r < next_ref s \<and> P r = n \<and> type_matches (objs s r) n"
  shows "own_inv P s' (active_detections s') \<and> ran (trace_ownership s') \<subseteq> N \<and>
         (\<forall>local'. res = Inr local' \<longrightarrow> own_inv P s' local' \<and> (\<forall>r\<in>set local'. P r = n))"
  using assms(1,2,3,4,5,8)
proof (induction ds arbitrary: s local)
  case Nil
  then show ?case by auto
next
  case (Cons d ds)
  obtain s1 r1 where step: "process_detection s n d = (s1, r1)" by (cases "process_detection s n d")
  from Cons.prems(6) have d: "d < next_ref s" "P d = n" "type_matches (objs s d) n" by simp_all
  from own_step [OF step Cons.prems(2,3,4,5) inj nN d]
  have J1: "own_inv P s1 (active_detections s1)" and L1: "own_inv P s1 local"
    and K1: "ran (trace_ownership s1) \<subseteq> N" and D1: "r1 = Inr True \<longrightarrow> own_inv P s1 [d]"
    by simp_all
  from frame_process_detection [of s n d] step have f: "frame s s1" by simp
  from Cons.prems(6) f
  have rest: "\<forall>r\<in>set ds. r < next_ref s1 \<and> P r = n \<and> type_matches (objs s1 r) n"
    by (auto simp: frame_type_matches intro: frame_next_ref)
  show ?case
  proof (cases r1)
    case (Inl e)
    with step Cons.prems(1) J1 K1 show ?thesis by auto
  next
    case (Inr b)
    show ?thesis
    proof (cases b)
      case True
      with step Inr Cons.prems(1) have loop: "process_loop s1 n ds (local @ [d]) = (s', res)" by simp
      from True Inr D1 L1 have L: "own_inv P s1 (local @ [d])" by simp
      from Cons.prems(4) d(2) have Ln: "\<forall>r\<in>set (local @ [d]). P r = n" by simp
      from Cons.IH [OF loop J1 L Ln K1 rest] show ?thesis .
    next
      case False
      with step Inr Cons.prems(1) have loop: "process_loop s1 n ds local = (s', res)" by simp
      from Cons.IH [OF loop J1 L1 Cons.prems(4) K1 rest] show ?thesis .
    qed
  qed
qed

lemma own_call:
  assumes J: "own_inv P s (active_detections s)"
    and K: "ran (trace_ownership s) \<subseteq> N" and inj: "inj_on priority_of N" and nN: "n \<in> N"
    and ds: "\<forall>r\<in>set ds. r < next_ref s \<and> P r = n \<and> type_matches (objs s r) n"
  shows "own_inv P (fst (process_detections s n ds))
           (active_detections (fst (process_detections s n ds))) \<and>
         ran (trace_ownership (fst (process_detections s n ds))) \<subseteq> N"
proof -
  obtain s1 res where loop: "process_loop s n ds [] = (s1, res)" by (cases "process_loop s n ds []")
  have L: "own_inv P s []" by (simp add: own_inv_def)
  from own_loop [OF loop J L _ K inj nN ds]
  have J1: "own_inv P s1 (active_detections s1)" and K1: "ran (trace_ownership s1) \<subseteq> N"
    and L1: "\<forall>local'. res = Inr local' \<longrightarrow> own_inv P s1 local'"
    by simp_all
  show ?thesis
  proof (cases res)
    case (Inl e)
    with loop J1 K1 show ?thesis by (simp add: process_detections_def)
  next
    case (Inr act)
    with loop J1 K1 L1 show ?thesis by (simp add: process_detections_def)
  qed
qed

lemma own_all:
  assumes "own_inv P s (active_detections s)"
    and "ran (trace_ownership s) \<subseteq> N" and inj: "inj_on priority_of N"
    and "\<forall>c\<in>set calls. fst c \<in> N \<and>
           (\<forall>r\<in>set (snd c). r < next_ref s \<and> P r = fst c \<and> type_matches (objs s r) (fst c))"
  shows "own_inv P (process_all s calls) (active_detections (process_all s calls))"
  using assms(1,2,4)
proof (induction calls arbitrary: s)
  case Nil
  then show ?case by simp
next
  case (Cons c calls)
  obtain n ds where c: "c = (n, ds)" by (cases c)
  let ?s1 = "fst (process_detections s n ds)"
  from Cons.prems(3) c have nN: "n \<in> N"
    and ds: "\<forall>r\<in>set ds. r < next_ref s \<and> P r = n \<and> type_matches (objs s r) n" by simp_all
  from own_call [OF Cons.prems(1,2) inj nN ds]
  have J1: "own_inv P ?s1 (active_detections ?s1)" and K1: "ran (trace_ownership ?s1) \<subseteq> N"
    by simp_all
  have f: "frame s ?s1" by (rule frame_process_detections)
  from Cons.prems(3) f
  have "\<forall>c\<in>set calls. fst c \<in> N \<and>
           (\<forall>r\<in>set (snd c). r < next_ref ?s1 \<and> P r = fst c \<and> type_matches (objs ?s1 r) (fst c))"
    by (auto simp: frame_type_matches intro: frame_next_ref)
  from Cons.IH [OF J1 K1 this] c show ?case by simp
qed

lemma get_suppression_summary_state [simp]: "fst (get_suppression_summary s) = s"
  by (simp add: get_suppression_summary_def)

lemma frame_run_calls: "frame s (run_calls s calls)"
proof (induction calls arbitrary: s)
  case Nil
  then show ?case by simp
next
  case (Cons c calls)
  show ?case
  proof (cases c)
    case (ProcessDetections n ds)
    from frame_process_detections [of s n ds] Cons.IH [of "fst (process_detections s n ds)"]
    show ?thesis by (auto simp: ProcessDetections intro: frame_trans)
  next
    case GetSuppressionSummary
    with Cons.IH [of s] show ?thesis by simp
  qed
qed

lemma active_run_calls:
  "set (active_detections (run_calls s calls)) \<subseteq> set (active_detections s) \<union> set (submitted calls)"
proof (induction calls arbitrary: s)
  case Nil
  then show ?case by simp
next
  case (Cons c calls)
  show ?case
  proof (cases c)
    case (ProcessDetections n ds)
    from active_process_detections [of s n ds] Cons.IH [of "fst (process_detections s n ds)"]
    show ?thesis by (auto simp: ProcessDetections)
  next
    case GetSuppressionSummary
    with Cons.IH [of s] show ?thesis by simp
  qed
qed

lemma truthy_unhashable_raises:
  assumes "truthy (dict_get (objs s d) ''trace_id'')"
    and "\<not> hashable (dict_get (objs s d) ''trace_id'')"
  shows "process_detection s n d = (s, Inl TypeError)"
  using assms by (simp add: process_detection_def is_detector_suppressed_def Let_def)

lemma summary_example:
  "total_traces_analyzed (projr (snd (get_suppression_summary ex_transferred))) = 1
   \<and> suppressed_issues (projr (snd (get_suppression_summary ex_transferred))) = 1
   \<and> suppression_breakdown (projr (snd (get_suppression_summary ex_transferred)))
        (PStr ''superseded_by:RetryLoopDetector'') = Some 1"
  by code_simp

section \<open>The claims\<close>

subsection \<open>C1\<close>

text \<open>
  Claim C1 (single ownership), amended. The table is a map, so a trace has at most one
  owner. A new engine processes any sequence of calls, also calls that raise, in which
  every detection object is submitted by one detector only (its producer), distinct
  detectors have distinct ranks, and the normalised \<^verbatim>\<open>type\<close> of every detection occurs
  in its producer's name in lower case. Then every detection of the active list with a
  trace identifier was produced by the owner the table records for its trace. Without
  the two conditions the claim fails.
\<close>

theorem single_owner:
  assumes prod: "\<forall>c\<in>set calls. \<forall>r\<in>set (snd c).
                   r < next_ref h \<and> producer r = fst c \<and> type_matches (objs h r) (fst c)"
    and ranks: "inj_on priority_of (fst ` set calls)"
  shows "(\<forall>r\<in>set (active_detections (process_all (init h cfg incl) calls)).
           truthy (dict_get (objs (process_all (init h cfg incl) calls) r) ''trace_id'') \<longrightarrow>
           trace_ownership (process_all (init h cfg incl) calls)
             (py_key (dict_get (objs (process_all (init h cfg incl) calls) r) ''trace_id''))
           = Some (producer r))
       \<and> (trace_ownership (process_all (init h cfg incl) calls) trace_id = Some a \<and>
          trace_ownership (process_all (init h cfg incl) calls) trace_id = Some b \<longrightarrow> a = b)"
proof -
  let ?s = "init h cfg incl"
  have J: "own_inv producer ?s (active_detections ?s)" by (simp add: init_def own_inv_def)
  have K: "ran (trace_ownership ?s) \<subseteq> fst ` set calls" by (simp add: init_def)
  from prod have "\<forall>c\<in>set calls. fst c \<in> fst ` set calls \<and>
           (\<forall>r\<in>set (snd c). r < next_ref ?s \<and> producer r = fst c \<and>
              type_matches (objs ?s r) (fst c))"
    by (simp add: init_def)
  from own_all [OF J K ranks this] show ?thesis by (auto simp: own_inv_def)
qed

theorem single_owner_witness:
  "active_detections ex_final = [3, 0]
   \<and> trace_ownership ex_final (py_key (dict_get (objs ex_final 3) ''trace_id'')) = Some (ex_producer 3)
   \<and> trace_ownership ex_final (py_key (dict_get (objs ex_final 0) ''trace_id'')) = Some (ex_producer 0)
   \<and> ex_producer 3 = ''RetryLoopDetector''"
proof -
  have n: "next_ref ex_heap = 13" by (simp add: ex_heap_def)
  have tm: "type_matches (objs ex_heap 2) ''FallbackFailureDetector''"
    "type_matches (objs ex_heap 3) ''RetryLoopDetector''"
    "type_matches (objs ex_heap 1) ''FallbackStormDetector''"
    "type_matches (objs ex_heap 0) ''RetryLoopDetector''"
    by code_simp+
  have prod: "\<forall>c\<in>set ex_calls. \<forall>r\<in>set (snd c).
      r < next_ref ex_heap \<and> ex_producer r = fst c \<and> type_matches (objs ex_heap r) (fst c)"
    using n tm by (simp add: ex_calls_def ex_producer_def)
  have p: "priority_of ''FallbackFailureDetector'' = 3" "priority_of ''RetryLoopDetector'' = 1"
    "priority_of ''FallbackStormDetector'' = 2" by code_simp+
  have ranks: "inj_on priority_of (fst ` set ex_calls)"
    unfolding inj_on_def using p by (auto simp: ex_calls_def)
  have a: "active_detections ex_final = [3, 0]" by code_simp
  have t: "truthy (dict_get (objs ex_final 3) ''trace_id'')"
    "truthy (dict_get (objs ex_final 0) ''trace_id'')" by code_simp+
  from single_owner [OF prod ranks, of None False] a t
  show ?thesis by (simp add: ex_final_def ex_producer_def)
qed

text \<open>
  Two detectors outside the priority table share rank 999: the second takes the trace
  without a transfer and both detections stay active. And a detection whose \<^verbatim>\<open>type\<close>
  does not match its detector's name survives the transfer to a detector of higher
  priority.
\<close>

theorem single_owner_counterexample:
  "active_detections ex_coowned = [0, 1]
   \<and> dict_get (objs ex_coowned 0) ''trace_id'' = PStr ''t1''
   \<and> trace_ownership ex_coowned (PStr ''t1'') = Some ''CustomDetectorB''
   \<and> active_detections (process_all ex_engine [(''CustomDetectorA'', [0])]) = [0]
   \<and> active_detections ex_mismatch = [6, 7]
   \<and> dict_get (objs ex_mismatch 6) ''trace_id'' = PStr ''t3''
   \<and> trace_ownership ex_mismatch (PStr ''t3'') = Some ''RetryLoopDetector''
   \<and> active_detections (process_all ex_engine [(''FallbackFailureDetector'', [6])]) = [6]"
  by code_simp

subsection \<open>C2\<close>

text \<open>
  Claim C2 (priority transfer). The claim holds of what the engine means to do: it is to
  ``move previous owner's detections to suppressed'' and to ``find active detections
  from old owner for this trace'' (the comments in \<^verbatim>\<open>process_detections\<close> and
  \<^verbatim>\<open>_transfer_ownership\<close>). The engine recognises the old owner's detections by the
  substring test on their \<^verbatim>\<open>type\<close> only, and at this input it misses one. The fallback
  failure detector claims trace \<^verbatim>\<open>t3\<close> with detection 6, whose type is
  \<^verbatim>\<open>expensive_call\<close>; the retry loop detector, of higher priority, then submits detection
  7 for \<^verbatim>\<open>t3\<close>. Both calls return, the table gives the trace to the retry loop detector,
  and detection 6 of the lower-priority detector is still active: nothing is suppressed.
\<close>

theorem priority_transfer_misses_mismatched_type:
  "dict_get (objs ex_engine 6) ''trace_id'' = PStr ''t3''
   \<and> dict_get (objs ex_engine 7) ''trace_id'' = PStr ''t3''
   \<and> priority_of ''RetryLoopDetector'' < priority_of ''FallbackFailureDetector''
   \<and> trace_ownership (process_all ex_engine [(''FallbackFailureDetector'', [6])]) (PStr ''t3'')
       = Some ''FallbackFailureDetector''
   \<and> active_detections (process_all ex_engine [(''FallbackFailureDetector'', [6])]) = [6]
   \<and> completes ex_engine [(''FallbackFailureDetector'', [6]), (''RetryLoopDetector'', [7])]
   \<and> active_detections ex_mismatch = [6, 7]
   \<and> suppressed_detections ex_mismatch = []
   \<and> trace_ownership ex_mismatch (PStr ''t3'') = Some ''RetryLoopDetector''"
  by code_simp

text \<open>
  Where the types match, the engine does what claim C2 says. A detection \<open>d\<close> of a
  detector that outranks the owner of its trace is processed in a state where the
  \<^verbatim>\<open>type\<close> of every active detection of the trace is a string or absent. The loop body
  accepts \<open>d\<close> at any position of a batch, and every call that returns with \<open>d\<close> first
  in its batch returns it and has it in the active list; the active detections of the
  trace whose normalised \<^verbatim>\<open>type\<close> occurs in the old owner's name leave the active list,
  and for each a new object is appended to the suppressed list, with
  \<^verbatim>\<open>suppression_reason\<close> \<^verbatim>\<open>superseded_by:<new owner>\<close>, \<^verbatim>\<open>suppressed_by\<close> and
  \<^verbatim>\<open>detector\<close> the old owner, and every other field as in the detection; the table maps
  the trace to the new detector. The configuration rule cannot interfere, since no
  detector outranks the retry loop detector.
\<close>

lemma transfer_of_matching_detections:
  assumes tr: "truthy (dict_get (objs s d) ''trace_id'')"
    and h: "hashable (dict_get (objs s d) ''trace_id'')"
    and owner: "trace_ownership s (py_key (dict_get (objs s d) ''trace_id'')) = Some old_owner"
    and prio: "priority_of detector_name < priority_of old_owner"
    and typed: "\<forall>r\<in>set (active_detections s).
                  py_eq (dict_get (objs s r) ''trace_id'') (dict_get (objs s d) ''trace_id'') \<longrightarrow>
                  (\<exists>ty. dict_get_default (objs s r) ''type'' (PStr []) = PStr ty)"
    and alloc: "\<forall>r\<in>set (active_detections s). r < next_ref s"
    and alloc_d: "d < next_ref s"
  shows "process_loop s detector_name (d # rest) active =
           process_loop
             (claim_ownership
                ((suppress_all s
                    (filter (\<lambda>r. matches_old_owner (objs s r) (dict_get (objs s d) ''trace_id'')
                        old_owner = Inr True) (active_detections s))
                    old_owner (''superseded_by:'' @ detector_name))
                 \<lparr>active_detections :=
                    filter (\<lambda>r. matches_old_owner (objs s r) (dict_get (objs s d) ''trace_id'')
                        old_owner \<noteq> Inr True) (active_detections s)\<rparr>)
                detector_name (dict_get (objs s d) ''trace_id'') d)
             detector_name rest (active @ [d])
       \<and> snd (process_detections s detector_name [d]) = Inr [d]
       \<and> active_detections (fst (process_detections s detector_name [d])) =
           filter (\<lambda>r. matches_old_owner (objs s r) (dict_get (objs s d) ''trace_id'') old_owner
                          \<noteq> Inr True) (active_detections s) @ [d]
       \<and> suppressed_detections (fst (process_detections s detector_name [d])) =
           suppressed_detections s @
           [next_ref s ..< next_ref s + length (filter (\<lambda>r. matches_old_owner (objs s r)
               (dict_get (objs s d) ''trace_id'') old_owner = Inr True) (active_detections s))]
       \<and> (\<forall>i < length (filter (\<lambda>r. matches_old_owner (objs s r)
               (dict_get (objs s d) ''trace_id'') old_owner = Inr True) (active_detections s)).
            objs (fst (process_detections s detector_name [d])) (next_ref s + i)
                ''suppression_reason'' = Some (PStr (''superseded_by:'' @ detector_name)) \<and>
            objs (fst (process_detections s detector_name [d])) (next_ref s + i)
                ''suppressed_by'' = Some (PStr old_owner) \<and>
            objs (fst (process_detections s detector_name [d])) (next_ref s + i)
                ''detector'' = Some (PStr old_owner) \<and>
            (\<forall>k. k \<notin> {''suppressed_by'', ''suppression_reason'', ''detector''} \<longrightarrow>
               objs (fst (process_detections s detector_name [d])) (next_ref s + i) k =
               objs s (filter (\<lambda>r. matches_old_owner (objs s r)
                   (dict_get (objs s d) ''trace_id'') old_owner = Inr True) (active_detections s) ! i) k))
       \<and> trace_ownership (fst (process_detections s detector_name [d])) =
           (trace_ownership s)(py_key (dict_get (objs s d) ''trace_id'') \<mapsto> detector_name)
       \<and> objs (fst (process_detections s detector_name [d])) d ''suppressed_by'' = Some PNone
       \<and> (process_detections s detector_name (d # rest) = (s', Inr returned) \<longrightarrow>
            d \<in> set returned \<and> d \<in> set (active_detections s'))"
proof -
  let ?t = "dict_get (objs s d) ''trace_id''"
  let ?moved = "filter (is_match (objs s) ?t old_owner) (active_detections s)"
  have moved: "filter (\<lambda>r. matches_old_owner (objs s r) ?t old_owner = Inr True)
                 (active_detections s) = ?moved"
    by (simp add: is_match_def [abs_def])
  have kept: "filter (\<lambda>r. matches_old_owner (objs s r) ?t old_owner \<noteq> Inr True)
                 (active_detections s) = filter (\<lambda>r. \<not> is_match (objs s) ?t old_owner r) (active_detections s)"
    by (simp add: is_match_def [abs_def])
  from transfer_ownership_no_raise [OF typed] obtain s1 where
    t: "transfer_ownership s ?t old_owner detector_name = Inr s1" by blast
  from not_config_suppressed_below [OF h owner prio]
  have step: "process_detection s detector_name d =
                (claim_ownership s1 detector_name ?t d, Inr True)"
    using tr h owner prio t by (simp add: process_detection_def)
  let ?s' = "fst (process_detections s detector_name [d])"
  from step have s': "?s' = (claim_ownership s1 detector_name ?t d)
       \<lparr>active_detections := active_detections s1 @ [d]\<rparr>"
    and res: "snd (process_detections s detector_name [d]) = Inr [d]"
    by (simp_all add: process_detections_def)
  have a: "active_detections ?s' = filter (\<lambda>r. \<not> is_match (objs s) ?t old_owner r) (active_detections s) @ [d]"
    by (simp add: s' transfer_ownership_Inr(1) [OF t])
  have b: "suppressed_detections ?s' = suppressed_detections s @
             [next_ref s ..< next_ref s + length ?moved]"
    by (simp add: s' transfer_ownership_Inr(2) [OF t])
  have c: "objs ?s' (next_ref s + i) ''suppression_reason'' =
             Some (PStr (''superseded_by:'' @ detector_name)) \<and>
           objs ?s' (next_ref s + i) ''suppressed_by'' = Some (PStr old_owner) \<and>
           objs ?s' (next_ref s + i) ''detector'' = Some (PStr old_owner) \<and>
           (\<forall>k. k \<notin> {''suppressed_by'', ''suppression_reason'', ''detector''} \<longrightarrow>
              objs ?s' (next_ref s + i) k = objs s (?moved ! i) k)"
    if "i < length ?moved" for i
  proof -
    from alloc_d have "d \<noteq> next_ref s + i" by simp
    with transfer_ownership_objs_new [OF t alloc that]
    have "objs ?s' (next_ref s + i) =
            suppressed_copy (objs s (?moved ! i)) old_owner (''superseded_by:'' @ detector_name)"
      by (simp add: s')
    then show ?thesis
      by (simp add: suppressed_copy_fields suppressed_copy_other)
  qed
  have e: "trace_ownership ?s' = (trace_ownership s)(py_key ?t \<mapsto> detector_name)"
    by (simp add: s' transfer_ownership_Inr(4) [OF t])
  have f: "objs ?s' d ''suppressed_by'' = Some PNone" by (simp add: s')
  have g: "process_loop s detector_name (d # rest) active =
           process_loop
             (claim_ownership
                ((suppress_all s ?moved old_owner (''superseded_by:'' @ detector_name))
                 \<lparr>active_detections :=
                    filter (\<lambda>r. \<not> is_match (objs s) ?t old_owner r) (active_detections s)\<rparr>)
                detector_name ?t d)
             detector_name rest (active @ [d])"
    using step transfer_ownership_Inr(7) [OF t] by simp
  have r: "d \<in> set returned \<and> d \<in> set (active_detections s')"
    if call: "process_detections s detector_name (d # rest) = (s', Inr returned)"
  proof -
    from call obtain s2 where loop: "process_loop s detector_name (d # rest) [] = (s2, Inr returned)"
      and s2: "s' = s2\<lparr>active_detections := active_detections s2 @ returned\<rparr>"
      by (auto simp: process_detections_def split: prod.splits sum.splits)
    from loop step have "process_loop (claim_ownership s1 detector_name ?t d) detector_name rest [d]
        = (s2, Inr returned)" by simp
    from local_process_loop [OF this] have "d \<in> set returned" by simp
    with s2 show ?thesis by simp
  qed
  from g res a b c e f r show ?thesis unfolding moved kept by blast
qed

lemma transfer_of_matching_detections_example:
  "snd (process_detections ex_failure ''RetryLoopDetector'' [3]) = Inr [3]
   \<and> active_detections ex_failure = [2]
   \<and> active_detections (fst (process_detections ex_failure ''RetryLoopDetector'' [3])) = [3]
   \<and> suppressed_detections (fst (process_detections ex_failure ''RetryLoopDetector'' [3])) = [13]
   \<and> objs (fst (process_detections ex_failure ''RetryLoopDetector'' [3])) 13 ''suppression_reason''
       = Some (PStr ''superseded_by:RetryLoopDetector'')
   \<and> objs (fst (process_detections ex_failure ''RetryLoopDetector'' [3])) 13 ''suppressed_by''
       = Some (PStr ''FallbackFailureDetector'')
   \<and> trace_ownership (fst (process_detections ex_failure ''RetryLoopDetector'' [3])) (PStr ''t2'')
       = Some ''RetryLoopDetector''"
proof -
  have a: "active_detections ex_failure = [2]" by code_simp
  have n: "next_ref ex_failure = 13" by code_simp
  have s: "suppressed_detections ex_failure = []" by code_simp
  have t: "dict_get (objs ex_failure 3) ''trace_id'' = PStr ''t2''" by code_simp
  have tr: "truthy (dict_get (objs ex_failure 3) ''trace_id'')" by code_simp
  have h: "hashable (dict_get (objs ex_failure 3) ''trace_id'')" by code_simp
  have owner: "trace_ownership ex_failure (py_key (dict_get (objs ex_failure 3) ''trace_id''))
                 = Some ''FallbackFailureDetector''" by code_simp
  have prio: "priority_of ''RetryLoopDetector'' < priority_of ''FallbackFailureDetector''"
    by code_simp
  have "dict_get_default (objs ex_failure 2) ''type'' (PStr []) = PStr ''fallback_failure''"
    by code_simp
  with a have typed: "\<forall>r\<in>set (active_detections ex_failure).
      py_eq (dict_get (objs ex_failure r) ''trace_id'') (dict_get (objs ex_failure 3) ''trace_id'') \<longrightarrow>
        (\<exists>ty. dict_get_default (objs ex_failure r) ''type'' (PStr []) = PStr ty)"
    by simp
  from a n have alloc: "\<forall>r\<in>set (active_detections ex_failure). r < next_ref ex_failure" by simp
  from n have alloc_d: "3 < next_ref ex_failure" by simp
  have m: "matches_old_owner (objs ex_failure 2) (PStr ''t2'') ''FallbackFailureDetector'' = Inr True"
    by code_simp
  from transfer_of_matching_detections [OF tr h owner prio typed alloc alloc_d, of "[]" "[]"] a n s t m
  show ?thesis by simp
qed

subsection \<open>C3\<close>

text \<open>
  Claim C3 (partition), amended. Over a sequence of calls that all return, on objects
  that exist, the records of the active and the suppressed list together, without the
  metadata fields \<^verbatim>\<open>suppressed_by\<close>, \<^verbatim>\<open>suppression_reason\<close> and \<^verbatim>\<open>detector\<close>, are as a
  multiset the records of what the lists held before and of the detections submitted:
  none is lost, none is duplicated, and the lengths add up. By reference, an active
  entry is one of the submitted detections (or was active before), whereas every entry
  added to the suppressed list is a new object, a copy made by the engine, and not the
  detection submitted.
\<close>

theorem partition_up_to_copies:
  assumes ok: "completes s calls"
    and alloc: "\<forall>r\<in>set (active_detections s) \<union> set (suppressed_detections s) \<union>
                  set (concat (map snd calls)). r < next_ref s"
  shows "contents (process_all s calls)
           (active_detections (process_all s calls) @ suppressed_detections (process_all s calls)) =
         contents s (active_detections s @ suppressed_detections s @ concat (map snd calls))
       \<and> length (active_detections (process_all s calls)) +
           length (suppressed_detections (process_all s calls)) =
         length (active_detections s) + length (suppressed_detections s) +
           length (concat (map snd calls))
       \<and> set (active_detections (process_all s calls)) \<subseteq>
           set (active_detections s) \<union> set (concat (map snd calls))
       \<and> suppressed_detections (process_all s calls) =
           suppressed_detections s @ [next_ref s ..< next_ref (process_all s calls)]"
proof -
  from alloc have a: "allocated s"
    and raw: "\<forall>r\<in>set (concat (map snd calls)). r < next_ref s"
    by (simp_all add: allocated_def)
  from contents_all [OF ok a raw]
  have c: "contents (process_all s calls)
           (active_detections (process_all s calls) @ suppressed_detections (process_all s calls)) =
         contents s (active_detections s @ suppressed_detections s @ concat (map snd calls))"
    by (simp add: ac_simps)
  from arg_cong [OF c, of size]
  have "length (active_detections (process_all s calls)) +
           length (suppressed_detections (process_all s calls)) =
         length (active_detections s) + length (suppressed_detections s) +
           length (concat (map snd calls))"
    by (simp add: contents_def)
  with c active_process_all [of s calls] frame_process_all [of s calls] show ?thesis
    by (simp add: frame_def)
qed

theorem partition_up_to_copies_witness:
  "completes ex_engine ex_calls
   \<and> length (active_detections (process_all ex_engine ex_calls)) +
       length (suppressed_detections (process_all ex_engine ex_calls)) = 4
   \<and> set (active_detections (process_all ex_engine ex_calls)) \<subseteq> {0, 1, 2, 3}
   \<and> suppressed_detections (process_all ex_engine ex_calls) =
       [13 ..< next_ref (process_all ex_engine ex_calls)]
   \<and> contents (process_all ex_engine ex_calls)
        (active_detections (process_all ex_engine ex_calls) @
         suppressed_detections (process_all ex_engine ex_calls)) =
      contents ex_engine [2, 3, 1, 0]"
proof -
  have ok: "completes ex_engine ex_calls" by code_simp
  have a: "active_detections ex_engine = []" and s: "suppressed_detections ex_engine = []"
    and n: "next_ref ex_engine = 13" by code_simp+
  from a s n have alloc: "\<forall>r\<in>set (active_detections ex_engine) \<union>
      set (suppressed_detections ex_engine) \<union> set (concat (map snd ex_calls)).
        r < next_ref ex_engine"
    by (simp add: ex_calls_def)
  have c: "concat (map snd ex_calls) = [2, 3, 1, 0]" by (simp add: ex_calls_def)
  from partition_up_to_copies [OF ok alloc] ok a s n c
  show ?thesis by auto
qed

text \<open>
  The fallback storm detection 1 is suppressed: the suppressed list holds the new object
  13, and object 1 is in neither list.
\<close>

theorem partition_counterexample:
  "active_detections ex_downgraded = [0]
   \<and> suppressed_detections ex_downgraded = [13]
   \<and> completes ex_engine [(''RetryLoopDetector'', [0]), (''FallbackStormDetector'', [1])]
   \<and> set (active_detections ex_downgraded) \<union> set (suppressed_detections ex_downgraded)
       \<noteq> set (concat (map snd [(''RetryLoopDetector'', [0::nat]), (''FallbackStormDetector'', [1])]))"
  by code_simp

subsection \<open>C4\<close>

text \<open>
  Claim C4 (monotonicity of suppression), amended. Over any sequence of calls of
  \<^verbatim>\<open>process_detections\<close> and \<^verbatim>\<open>get_suppression_summary\<close>, also calls that raise, the
  suppressed list only grows at its end: what is in it stays in it, at its place. A
  reference that is not active is never active again unless a later call of
  \<^verbatim>\<open>process_detections\<close> is given it as input. \<^verbatim>\<open>get_suppression_summary\<close> leaves the
  state as it is. As the claim is written it fails: the engine accepts whatever it is
  given, also an object of its own suppressed list.
\<close>

theorem suppression_monotone:
  "prefix (suppressed_detections s) (suppressed_detections (run_calls s calls))
   \<and> (r \<notin> set (active_detections s) \<and> r \<notin> set (submitted calls)
        \<longrightarrow> r \<notin> set (active_detections (run_calls s calls)))
   \<and> fst (get_suppression_summary s) = s"
  using frame_run_calls [of s calls] active_run_calls [of s calls]
  by (auto simp: frame_def)

theorem suppression_monotone_witness:
  "prefix (suppressed_detections ex_transferred)
     (suppressed_detections (run_calls ex_transferred
        [GetSuppressionSummary, ProcessDetections ''FallbackStormDetector'' [1], GetSuppressionSummary]))
   \<and> 13 \<in> set (suppressed_detections ex_transferred)
   \<and> 13 \<notin> set (active_detections (run_calls ex_transferred
        [GetSuppressionSummary, ProcessDetections ''FallbackStormDetector'' [1], GetSuppressionSummary]))
   \<and> 2 \<notin> set (active_detections (run_calls ex_transferred
        [GetSuppressionSummary, ProcessDetections ''FallbackStormDetector'' [1], GetSuppressionSummary]))"
proof -
  have s: "suppressed_detections ex_transferred = [13]" by code_simp
  have a: "active_detections ex_transferred = [3]" by code_simp
  from suppression_monotone [of ex_transferred
      "[GetSuppressionSummary, ProcessDetections ''FallbackStormDetector'' [1], GetSuppressionSummary]" 13]
    suppression_monotone [of ex_transferred
      "[GetSuppressionSummary, ProcessDetections ''FallbackStormDetector'' [1], GetSuppressionSummary]" 2] s a
  show ?thesis by simp
qed

text \<open>
  After the transfer of trace \<^verbatim>\<open>t2\<close> the suppressed list holds the copy 13. The retry
  loop detector, owner of the trace, is given object 13 as a detection: it is accepted,
  and 13 is in the suppressed list and in the active list.
\<close>

theorem suppression_monotone_counterexample:
  "suppressed_detections ex_transferred = [13]
   \<and> active_detections ex_transferred = [3]
   \<and> suppressed_detections ex_resubmitted = [13]
   \<and> active_detections ex_resubmitted = [3, 13]
   \<and> 13 \<in> set (suppressed_detections ex_transferred)
   \<and> 13 \<notin> set (active_detections ex_transferred)
   \<and> 13 \<in> set (active_detections ex_resubmitted)"
  by code_simp

subsection \<open>C5\<close>




subsection \<open>C6\<close>



subsection \<open>C7\<close>

text \<open>
  Claim C7 (no trace identifier). A detection without the field \<^verbatim>\<open>trace_id\<close> is
  accepted by the loop body in every state and for every detector, with no change of the
  state: no suppression, no entry in the table. Every call that returns and had it in its
  batch returns it as active, and it stays in the active list over every later sequence
  of calls. No sequence of calls changes the table at the key \<^verbatim>\<open>None\<close>, which is never
  a key of the table of a new engine.
\<close>

theorem no_trace_id_auto_accept:
  assumes absent: "objs s d ''trace_id'' = None" and alloc: "d < next_ref s"
  shows "process_detection s detector_name d = (s, Inr True)
       \<and> (d \<in> set detections \<and> process_detections s detector_name detections = (s', Inr active)
            \<longrightarrow> d \<in> set active \<and> d \<in> set (active_detections (process_all s' calls)))
       \<and> trace_ownership (process_all s calls) (py_key (dict_get (objs s d) ''trace_id''))
            = trace_ownership s (py_key (dict_get (objs s d) ''trace_id''))
       \<and> trace_ownership (process_all (init h cfg incl) calls) PNone = None"
proof -
  from absent have t: "\<not> truthy (dict_get (objs s d) ''trace_id'')" by (simp add: dict_get_def)
  have "trace_ownership (process_all (init h cfg incl) calls) PNone
          = trace_ownership (init h cfg incl) PNone" by (rule falsy_key_untouched) simp
  then have "trace_ownership (process_all (init h cfg incl) calls) PNone = None"
    by (simp add: init_def)
  moreover from t have "trace_ownership (process_all s calls) (py_key (dict_get (objs s d) ''trace_id''))
            = trace_ownership s (py_key (dict_get (objs s d) ''trace_id''))"
    by (intro falsy_key_untouched) simp
  ultimately show ?thesis
    using falsy_step [OF t, of detector_name]
      falsy_accepted [OF _ t alloc, of detections detector_name s' active calls]
    by blast
qed

theorem no_trace_id_auto_accept_witness:
  "process_detection ex_engine ''OverkillModelDetector'' 4 = (ex_engine, Inr True)
   \<and> 4 \<in> set (active_detections (process_all
           (fst (process_detections ex_engine ''OverkillModelDetector'' [4, 6]))
           [(''RetryLoopDetector'', [7])]))
   \<and> trace_ownership (process_all ex_engine [(''RetryLoopDetector'', [7])]) PNone = None"
proof -
  have absent: "objs ex_engine 4 ''trace_id'' = None" by code_simp
  have alloc: "4 < next_ref ex_engine" by code_simp
  have "snd (process_detections ex_engine ''OverkillModelDetector'' [4, 6]) = Inr [4, 6]"
    by code_simp
  then have call: "process_detections ex_engine ''OverkillModelDetector'' [4, 6] =
          (fst (process_detections ex_engine ''OverkillModelDetector'' [4, 6]), Inr [4, 6])"
    by (rule fst_snd_eq)
  have o: "trace_ownership ex_engine PNone = None" by code_simp
  from no_trace_id_auto_accept [OF absent alloc, of "''OverkillModelDetector''" "[4, 6]"
      "fst (process_detections ex_engine ''OverkillModelDetector'' [4, 6])" "[4, 6]"
      "[(''RetryLoopDetector'', [7])]"] call o absent
  show ?thesis by (simp add: dict_get_def)
qed

subsection \<open>C8\<close>




subsection \<open>C9\<close>

text \<open>
  Claim C9 (empty trace identifier). A detection whose \<^verbatim>\<open>trace_id\<close> is the empty string
  goes the way of a detection without the field: the loop body accepts it with no change
  of the state, a call that returns had it in its batch returns it as active, it stays
  active over every later sequence of calls, and the empty string is never a key of the
  table.
\<close>

theorem empty_trace_id_auto_accept:
  assumes empty: "objs s d ''trace_id'' = Some (PStr [])" and alloc: "d < next_ref s"
  shows "process_detection s detector_name d = (s, Inr True)
       \<and> (d \<in> set detections \<and> process_detections s detector_name detections = (s', Inr active)
            \<longrightarrow> d \<in> set active \<and> d \<in> set (active_detections (process_all s' calls)))
       \<and> trace_ownership (process_all s calls) (PStr []) = trace_ownership s (PStr [])
       \<and> trace_ownership (process_all (init h cfg incl) calls) (PStr []) = None"
proof -
  from empty have t: "\<not> truthy (dict_get (objs s d) ''trace_id'')" by (simp add: dict_get_def)
  have "trace_ownership (process_all (init h cfg incl) calls) (PStr [])
          = trace_ownership (init h cfg incl) (PStr [])" by (rule falsy_key_untouched) simp
  then have "trace_ownership (process_all (init h cfg incl) calls) (PStr []) = None"
    by (simp add: init_def)
  moreover have "trace_ownership (process_all s calls) (PStr []) = trace_ownership s (PStr [])"
    by (intro falsy_key_untouched) simp
  ultimately show ?thesis
    using falsy_step [OF t, of detector_name]
      falsy_accepted [OF _ t alloc, of detections detector_name s' active calls]
    by blast
qed

theorem empty_trace_id_auto_accept_witness:
  "process_detection ex_engine ''OverkillModelDetector'' 5 = (ex_engine, Inr True)
   \<and> 5 \<in> set (active_detections (process_all
           (fst (process_detections ex_engine ''OverkillModelDetector'' [5, 6]))
           [(''RetryLoopDetector'', [7])]))
   \<and> trace_ownership (process_all ex_engine [(''RetryLoopDetector'', [7])]) (PStr []) = None"
proof -
  have empty: "objs ex_engine 5 ''trace_id'' = Some (PStr [])" by code_simp
  have alloc: "5 < next_ref ex_engine" by code_simp
  have "snd (process_detections ex_engine ''OverkillModelDetector'' [5, 6]) = Inr [5, 6]"
    by code_simp
  then have call: "process_detections ex_engine ''OverkillModelDetector'' [5, 6] =
          (fst (process_detections ex_engine ''OverkillModelDetector'' [5, 6]), Inr [5, 6])"
    by (rule fst_snd_eq)
  have o: "trace_ownership ex_engine (PStr []) = None" by code_simp
  from empty_trace_id_auto_accept [OF empty alloc, of "''OverkillModelDetector''" "[5, 6]"
      "fst (process_detections ex_engine ''OverkillModelDetector'' [5, 6])" "[5, 6]"
      "[(''RetryLoopDetector'', [7])]"] call o
  show ?thesis by simp
qed

subsection \<open>C10\<close>

text \<open>
  Claim C10 (detections without a type in a transfer). An active detection of the trace
  whose \<^verbatim>\<open>type\<close> is absent or the empty string passes the filter of
  \<^verbatim>\<open>_transfer_ownership\<close> for every old owner, whoever produced it: the empty string
  occurs in every name. When the transfer completes, the detection has left the active
  list, and among the entries appended to the suppressed list is an object with
  \<^verbatim>\<open>suppression_reason\<close> \<^verbatim>\<open>superseded_by:<new owner>\<close>, with \<^verbatim>\<open>suppressed_by\<close> and
  \<^verbatim>\<open>detector\<close> the old owner, and with every other field as in the detection.
\<close>

theorem untyped_detection_superseded:
  assumes mem: "r \<in> set (active_detections s)"
    and same: "py_eq (dict_get (objs s r) ''trace_id'') trace_id"
    and untyped: "objs s r ''type'' = None \<or> objs s r ''type'' = Some (PStr [])"
    and alloc: "\<forall>x\<in>set (active_detections s). x < next_ref s"
  shows "matches_old_owner (objs s r) trace_id old_owner = Inr True
       \<and> (transfer_ownership s trace_id old_owner new_owner = Inr s' \<longrightarrow>
            r \<notin> set (active_detections s') \<and>
            (\<exists>c\<in>set (drop (length (suppressed_detections s)) (suppressed_detections s')).
               objs s' c ''suppression_reason'' = Some (PStr (''superseded_by:'' @ new_owner)) \<and>
               objs s' c ''suppressed_by'' = Some (PStr old_owner) \<and>
               objs s' c ''detector'' = Some (PStr old_owner) \<and>
               (\<forall>k. k \<notin> {''suppressed_by'', ''suppression_reason'', ''detector''} \<longrightarrow>
                  objs s' c k = objs s r k)))"
proof -
  let ?moved = "filter (is_match (objs s) trace_id old_owner) (active_detections s)"
  from untyped have "dict_get_default (objs s r) ''type'' (PStr []) = PStr []"
    by (auto simp: dict_get_default_def)
  with same have m: "matches_old_owner (objs s r) trace_id old_owner = Inr True"
    by (simp add: matches_old_owner_def)
  moreover
  { assume t: "transfer_ownership s trace_id old_owner new_owner = Inr s'"
    from m mem have "r \<in> set ?moved" by (simp add: is_match_def)
    then obtain i where i: "i < length ?moved" "?moved ! i = r"
      unfolding in_set_conv_nth by blast
    from transfer_ownership_objs_new [OF t alloc i(1)] i(2)
    have c: "objs s' (next_ref s + i) =
               suppressed_copy (objs s r) old_owner (''superseded_by:'' @ new_owner)" by simp
    from i(1) have "next_ref s + i \<in> set (drop (length (suppressed_detections s)) (suppressed_detections s'))"
      by (simp add: transfer_ownership_Inr(2) [OF t])
    moreover have "objs s' (next_ref s + i) ''suppression_reason'' =
        Some (PStr (''superseded_by:'' @ new_owner))"
      "objs s' (next_ref s + i) ''suppressed_by'' = Some (PStr old_owner)"
      "objs s' (next_ref s + i) ''detector'' = Some (PStr old_owner)"
      "\<forall>k. k \<notin> {''suppressed_by'', ''suppression_reason'', ''detector''} \<longrightarrow>
         objs s' (next_ref s + i) k = objs s r k"
      unfolding c by (simp_all add: suppressed_copy_fields suppressed_copy_other)
    ultimately have "\<exists>c\<in>set (drop (length (suppressed_detections s)) (suppressed_detections s')).
               objs s' c ''suppression_reason'' = Some (PStr (''superseded_by:'' @ new_owner)) \<and>
               objs s' c ''suppressed_by'' = Some (PStr old_owner) \<and>
               objs s' c ''detector'' = Some (PStr old_owner) \<and>
               (\<forall>k. k \<notin> {''suppressed_by'', ''suppression_reason'', ''detector''} \<longrightarrow>
                  objs s' c k = objs s r k)"
      by blast
    moreover from m have "r \<notin> set (active_detections s')"
      by (simp add: transfer_ownership_Inr(1) [OF t] is_match_def)
    ultimately have "r \<notin> set (active_detections s') \<and>
            (\<exists>c\<in>set (drop (length (suppressed_detections s)) (suppressed_detections s')).
               objs s' c ''suppression_reason'' = Some (PStr (''superseded_by:'' @ new_owner)) \<and>
               objs s' c ''suppressed_by'' = Some (PStr old_owner) \<and>
               objs s' c ''detector'' = Some (PStr old_owner) \<and>
               (\<forall>k. k \<notin> {''suppressed_by'', ''suppression_reason'', ''detector''} \<longrightarrow>
                  objs s' c k = objs s r k))"
      by simp }
  ultimately show ?thesis by blast
qed

theorem untyped_detection_superseded_witness:
  "active_detections (process_all (init ex_heap2 None False) [(''CustomDetectorA'', [0])]) = [0]
   \<and> active_detections ex_coowned2 = [0, 1]
   \<and> trace_ownership ex_coowned2 (PStr ''t5'') = Some ''CustomDetectorB''
   \<and> objs ex_coowned2 0 ''type'' = None
   \<and> matches_old_owner (objs ex_coowned2 0) (PStr ''t5'') ''CustomDetectorB'' = Inr True
   \<and> (\<exists>s'. transfer_ownership ex_coowned2 (PStr ''t5'') ''CustomDetectorB''
               ''RetryLoopDetector'' = Inr s'
            \<and> 0 \<notin> set (active_detections s')
            \<and> (\<exists>c\<in>set (drop (length (suppressed_detections ex_coowned2)) (suppressed_detections s')).
                  objs s' c ''suppression_reason'' = Some (PStr ''superseded_by:RetryLoopDetector'')
                  \<and> objs s' c ''suppressed_by'' = Some (PStr ''CustomDetectorB'')
                  \<and> objs s' c ''trace_id'' = Some (PStr ''t5'')))
   \<and> active_detections (fst (process_detections ex_coowned2 ''RetryLoopDetector'' [2])) = [2]
   \<and> suppressed_detections (fst (process_detections ex_coowned2 ''RetryLoopDetector'' [2])) = [3, 4]
   \<and> objs (fst (process_detections ex_coowned2 ''RetryLoopDetector'' [2])) 3 ''suppression_reason''
       = Some (PStr ''superseded_by:RetryLoopDetector'')
   \<and> objs (fst (process_detections ex_coowned2 ''RetryLoopDetector'' [2])) 3 ''suppressed_by''
       = Some (PStr ''CustomDetectorB'')
   \<and> objs (fst (process_detections ex_coowned2 ''RetryLoopDetector'' [2])) 3 ''type'' = None"
proof -
  have a0: "active_detections (process_all (init ex_heap2 None False) [(''CustomDetectorA'', [0])]) = [0]"
    by code_simp
  have a: "active_detections ex_coowned2 = [0, 1]" by code_simp
  have n: "next_ref ex_coowned2 = 3" by code_simp
  have o: "trace_ownership ex_coowned2 (PStr ''t5'') = Some ''CustomDetectorB''" by code_simp
  from a have mem: "0 \<in> set (active_detections ex_coowned2)" by simp
  have same: "py_eq (dict_get (objs ex_coowned2 0) ''trace_id'') (PStr ''t5'')" by code_simp
  have ty: "objs ex_coowned2 0 ''type'' = None" by code_simp
  then have untyped: "objs ex_coowned2 0 ''type'' = None \<or> objs ex_coowned2 0 ''type'' = Some (PStr [])"
    by simp
  from a n have alloc: "\<forall>x\<in>set (active_detections ex_coowned2). x < next_ref ex_coowned2" by simp
  have tid: "objs ex_coowned2 0 ''trace_id'' = Some (PStr ''t5'')" by code_simp
  have ty1: "dict_get_default (objs ex_coowned2 1) ''type'' (PStr []) = PStr ''custom''" by code_simp
  from ty ty1 a have "\<forall>r\<in>set (active_detections ex_coowned2).
      py_eq (dict_get (objs ex_coowned2 r) ''trace_id'') (PStr ''t5'') \<longrightarrow>
        (\<exists>ty. dict_get_default (objs ex_coowned2 r) ''type'' (PStr []) = PStr ty)"
    by (simp add: dict_get_default_def)
  from transfer_ownership_no_raise [OF this] obtain s' where
    t: "transfer_ownership ex_coowned2 (PStr ''t5'') ''CustomDetectorB''
          ''RetryLoopDetector'' = Inr s'" by blast
  from untyped_detection_superseded [OF mem same untyped alloc,
      of "''CustomDetectorB''" "''RetryLoopDetector''" s'] t
  have m: "matches_old_owner (objs ex_coowned2 0) (PStr ''t5'') ''CustomDetectorB'' = Inr True"
    and gone: "0 \<notin> set (active_detections s')"
    and "\<exists>c\<in>set (drop (length (suppressed_detections ex_coowned2)) (suppressed_detections s')).
           objs s' c ''suppression_reason'' = Some (PStr (''superseded_by:'' @ ''RetryLoopDetector'')) \<and>
           objs s' c ''suppressed_by'' = Some (PStr ''CustomDetectorB'') \<and>
           objs s' c ''detector'' = Some (PStr ''CustomDetectorB'') \<and>
           (\<forall>k. k \<notin> {''suppressed_by'', ''suppression_reason'', ''detector''} \<longrightarrow>
              objs s' c k = objs ex_coowned2 0 k)"
    by blast+
  then obtain c where c: "c \<in> set (drop (length (suppressed_detections ex_coowned2)) (suppressed_detections s'))"
    "objs s' c ''suppression_reason'' = Some (PStr ''superseded_by:RetryLoopDetector'')"
    "objs s' c ''suppressed_by'' = Some (PStr ''CustomDetectorB'')"
    "\<forall>k. k \<notin> {''suppressed_by'', ''suppression_reason'', ''detector''} \<longrightarrow>
              objs s' c k = objs ex_coowned2 0 k"
    by auto
  from c(4) tid have "objs s' c ''trace_id'' = Some (PStr ''t5'')" by simp
  with t gone c(1,2,3)
  have ex: "\<exists>s'. transfer_ownership ex_coowned2 (PStr ''t5'') ''CustomDetectorB''
               ''RetryLoopDetector'' = Inr s'
            \<and> 0 \<notin> set (active_detections s')
            \<and> (\<exists>c\<in>set (drop (length (suppressed_detections ex_coowned2)) (suppressed_detections s')).
                  objs s' c ''suppression_reason'' = Some (PStr ''superseded_by:RetryLoopDetector'')
                  \<and> objs s' c ''suppressed_by'' = Some (PStr ''CustomDetectorB'')
                  \<and> objs s' c ''trace_id'' = Some (PStr ''t5''))"
    by blast
  have run: "active_detections (fst (process_detections ex_coowned2 ''RetryLoopDetector'' [2])) = [2]"
    "suppressed_detections (fst (process_detections ex_coowned2 ''RetryLoopDetector'' [2])) = [3, 4]"
    "objs (fst (process_detections ex_coowned2 ''RetryLoopDetector'' [2])) 3 ''suppression_reason''
       = Some (PStr ''superseded_by:RetryLoopDetector'')"
    "objs (fst (process_detections ex_coowned2 ''RetryLoopDetector'' [2])) 3 ''suppressed_by''
       = Some (PStr ''CustomDetectorB'')"
    "objs (fst (process_detections ex_coowned2 ''RetryLoopDetector'' [2])) 3 ''type'' = None"
    by code_simp+
  from a0 a o ty m ex run show ?thesis by simp
qed

end
